theory Spec2Isabelle
  imports Main "HOL-Library.Word"
begin

unbundle bit_operations_syntax

section \<open>Data model\<close>

text \<open>
  The type aliases of \<^verbatim>\<open>main.cpp\<close>. \<^verbatim>\<open>size_t\<close> and \<^verbatim>\<open>uintmax_t\<close> are 64-bit unsigned
  words (the program prints each accumulator in 16 hexadecimal digits); a path is an opaque
  identifier. The size of a file is the number of its bytes, a natural number (below
  \<open>2 ^ 64\<close> on any real system); it becomes a 64-bit word where \<^verbatim>\<open>main\<close> computes with it,
  so that the wrap-around of \<^verbatim>\<open>uintmax_t\<close> arithmetic is part of the model.
\<close>

type_synonym byte = "8 word"
type_synonym u64 = "64 word"
type_synonym path = string
type_synonym FileSize = nat
type_synonym HashString = string
type_synonym PathList = "path list"

text \<open>
  \<^verbatim>\<open>std::unordered_map<K, std::vector<V>>\<close>, used only through \<^verbatim>\<open>m[k].push_back(v)\<close>,
  erasure and iteration. The model is an association list with one pair per key, in the order
  in which the keys were first inserted. The order in which the C++ container iterates is
  unspecified, so every property below is stated on the set of groups, never on their order.
\<close>

type_synonym ('k, 'v) umap = "('k \<times> 'v list) list"

fun push_back_at :: "'k \<Rightarrow> 'v \<Rightarrow> ('k, 'v) umap \<Rightarrow> ('k, 'v) umap" where
  "push_back_at k v [] = [(k, [v])]"
| "push_back_at k v ((k', vs) # m) =
     (if k' = k then (k', vs @ [v]) # m else (k', vs) # push_back_at k v m)"

type_synonym SizeGroupMap = "(FileSize, path) umap"
type_synonym HashGroupMap = "(HashString, path) umap"

definition PARTIAL_READ_SIZE :: nat where
  "PARTIAL_READ_SIZE = 4096"

text \<open>
  The file system the program reads, as a snapshot that does not change during the run.
  \<open>ftype\<close> is the type that \<^verbatim>\<open>status()\<close> reports, which follows symbolic links (a link to
  a regular file is \<open>Regular\<close>, a dangling link is \<open>NotFound\<close>); \<open>is_symlink\<close> says whether
  the path itself is a link; \<open>readable\<close> says whether \<^verbatim>\<open>std::ifstream\<close> can open it.
\<close>

datatype file_type = Regular | Directory | Special | NotFound

record file_node =
  ftype :: file_type
  is_symlink :: bool
  content :: "byte list"
  readable :: bool

text \<open>
  What \<^verbatim>\<open>fs::recursive_directory_iterator(directory)\<close> produces, in its order: the path of an
  entry, or a failure. The source constructs the iterator with no \<^verbatim>\<open>directory_options\<close>
  and no \<^verbatim>\<open>std::error_code\<close>, and calls \<^verbatim>\<open>is_regular_file()\<close> and \<^verbatim>\<open>file_size()\<close> without
  one, so a failure at this point of the traversal (such as a directory that may not be
  opened) is a thrown \<^verbatim>\<open>fs::filesystem_error\<close>.
\<close>

datatype dir_event = Entry path | IterThrows

record filesystem =
  listing :: "dir_event list"
  node :: "path \<Rightarrow> file_node"

datatype error = FilesystemError | EmptyGroup

definition is_regular_file :: "filesystem \<Rightarrow> path \<Rightarrow> bool" where
  "is_regular_file fs p = (ftype (node fs p) = Regular)"

definition file_size :: "filesystem \<Rightarrow> path \<Rightarrow> FileSize" where
  "file_size fs p = length (content (node fs p))"

section \<open>Hash computation\<close>

text \<open>
  \<^verbatim>\<open>std::hash<std::string>\<close> is implementation-defined; it is the parameter \<open>hasher\<close>.
  The two accumulator updates of the loop body:
  \<^verbatim>\<open>hash1 ^= hasher(chunk) + 0x9e3779b9 + (hash1 << 6) + (hash1 >> 2);\<close>
  \<^verbatim>\<open>hash2 ^= hasher(chunk) * 31 + hash2;\<close>
\<close>

definition hash1_step :: "u64 \<Rightarrow> u64 \<Rightarrow> u64" where
  "hash1_step hash1 c = hash1 XOR (c + 0x9e3779b9 + push_bit 6 hash1 + drop_bit 2 hash1)"

definition hash2_step :: "u64 \<Rightarrow> u64 \<Rightarrow> u64" where
  "hash2_step hash2 c = hash2 XOR (c * 31 + hash2)"

text \<open>
  The \<^verbatim>\<open>while (file)\<close> loop of \<^verbatim>\<open>compute_hash\<close>. \<open>rest\<close> is what the stream has not yet
  delivered. \<^verbatim>\<open>file.read(buffer, to_read)\<close> delivers \<open>take to_read rest\<close>; when that is
  shorter than \<open>to_read\<close> the stream sets \<^verbatim>\<open>eofbit | failbit\<close> and the loop condition fails.
  \<open>max_bytes\<close> and \<open>total_read\<close> are natural numbers: \<open>total_read\<close> is bounded by the
  length of the file, and the subtraction \<open>max_bytes - total_read\<close> is only reached with
  \<open>total_read < max_bytes\<close>, since the loop breaks otherwise.
\<close>

function read_loop ::
  "(byte list \<Rightarrow> u64) \<Rightarrow> nat \<Rightarrow> byte list \<Rightarrow> u64 \<Rightarrow> u64 \<Rightarrow> nat \<Rightarrow> u64 \<times> u64" where
  "read_loop hasher max_bytes rest hash1 hash2 total_read =
     (let to_read = (if max_bytes > 0 then min 8192 (max_bytes - total_read) else 8192);
          chunk = take to_read rest;
          bytes_read = length chunk;
          hash1' = (if bytes_read > 0 then hash1_step hash1 (hasher chunk) else hash1);
          hash2' = (if bytes_read > 0 then hash2_step hash2 (hasher chunk) else hash2);
          total_read' = (if bytes_read > 0 then total_read + bytes_read else total_read)
      in if max_bytes > 0 \<and> total_read' \<ge> max_bytes then (hash1', hash2')
         else if bytes_read = to_read
           then read_loop hasher max_bytes (drop to_read rest) hash1' hash2' total_read'
           else (hash1', hash2'))"
  by pat_completeness auto
termination
  by (relation "measure (\<lambda>(hasher, max_bytes, rest, hash1, hash2, total_read). length rest)")
     (auto split: if_splits simp: min_def)

text \<open>
  \<^verbatim>\<open>oss << std::hex << std::setfill('0') << std::setw(16) << hash1 << std::setw(16) << hash2\<close>:
  each accumulator in lower-case hexadecimal, padded on the left with \<^verbatim>\<open>'0'\<close> to width 16.
\<close>

definition hex_digit :: "nat \<Rightarrow> char" where
  "hex_digit d = ''0123456789abcdef'' ! d"

fun hex_of_nat :: "nat \<Rightarrow> string" where
  "hex_of_nat n = (if n < 16 then [hex_digit n] else hex_of_nat (n div 16) @ [hex_digit (n mod 16)])"

definition setw_fill :: "nat \<Rightarrow> char \<Rightarrow> string \<Rightarrow> string" where
  "setw_fill w c s = replicate (w - length s) c @ s"

definition hex16 :: "u64 \<Rightarrow> string" where
  "hex16 h = setw_fill 16 (CHR ''0'') (hex_of_nat (unat h))"

text \<open>The part of \<^verbatim>\<open>compute_hash\<close> after the stream has been opened, on the file's bytes.\<close>

definition hash_bytes :: "(byte list \<Rightarrow> u64) \<Rightarrow> byte list \<Rightarrow> nat \<Rightarrow> HashString" where
  "hash_bytes hasher bytes max_bytes =
     (case read_loop hasher max_bytes bytes 0 0 0 of (hash1, hash2) \<Rightarrow> hex16 hash1 @ hex16 hash2)"

definition compute_hash :: "(byte list \<Rightarrow> u64) \<Rightarrow> filesystem \<Rightarrow> path \<Rightarrow> nat \<Rightarrow> HashString" where
  "compute_hash hasher fs filepath max_bytes =
     (if \<not> readable (node fs filepath) then ''''
      else hash_bytes hasher (content (node fs filepath)) max_bytes)"

definition partial_hash :: "(byte list \<Rightarrow> u64) \<Rightarrow> filesystem \<Rightarrow> path \<Rightarrow> HashString" where
  "partial_hash hasher fs filepath = compute_hash hasher fs filepath PARTIAL_READ_SIZE"

definition full_hash :: "(byte list \<Rightarrow> u64) \<Rightarrow> filesystem \<Rightarrow> path \<Rightarrow> HashString" where
  "full_hash hasher fs filepath = compute_hash hasher fs filepath 0"

section \<open>Phase 1: grouping by file size\<close>

text \<open>
  The range-for loop of \<^verbatim>\<open>group_by_size\<close> over the iterator. Nothing in the program catches
  the iterator's exception, so it ends the loop, \<^verbatim>\<open>group_by_size\<close>, \<^verbatim>\<open>find_duplicates\<close>
  and \<^verbatim>\<open>main\<close>: the model returns \<open>Inl FilesystemError\<close>.
\<close>

fun scan_entries :: "filesystem \<Rightarrow> dir_event list \<Rightarrow> SizeGroupMap \<Rightarrow> error + SizeGroupMap" where
  "scan_entries fs [] size_groups = Inr size_groups"
| "scan_entries fs (IterThrows # es) size_groups = Inl FilesystemError"
| "scan_entries fs (Entry p # es) size_groups =
     scan_entries fs es
       (if is_regular_file fs p then push_back_at (file_size fs p) p size_groups
        else size_groups)"

text \<open>The erase loop: \<^verbatim>\<open>if (it->second.size() < 2) it = size_groups.erase(it); else ++it;\<close>\<close>

definition erase_singletons :: "('k, 'v) umap \<Rightarrow> ('k, 'v) umap" where
  "erase_singletons m = filter (\<lambda>(k, vs). \<not> length vs < 2) m"

definition group_by_size :: "filesystem \<Rightarrow> error + SizeGroupMap" where
  "group_by_size fs =
     (case scan_entries fs (listing fs) [] of
        Inl e \<Rightarrow> Inl e
      | Inr size_groups \<Rightarrow> Inr (erase_singletons size_groups))"

section \<open>Phase 2: two-step hashing\<close>

text \<open>
  The loop that appears twice in \<^verbatim>\<open>find_duplicates\<close>, once with \<^verbatim>\<open>partial_hash\<close> and once
  with \<^verbatim>\<open>full_hash\<close>:
  \<^verbatim>\<open>HashString hash = h(path); if (!hash.empty()) groups[hash].push_back(path);\<close>
\<close>

fun hash_groups :: "(path \<Rightarrow> HashString) \<Rightarrow> PathList \<Rightarrow> HashGroupMap \<Rightarrow> HashGroupMap" where
  "hash_groups h [] groups = groups"
| "hash_groups h (p # ps) groups =
     hash_groups h ps (if h p \<noteq> [] then push_back_at (h p) p groups else groups)"

text \<open>Step A for one size group.\<close>

definition partial_groups :: "(byte list \<Rightarrow> u64) \<Rightarrow> filesystem \<Rightarrow> PathList \<Rightarrow> HashGroupMap" where
  "partial_groups hasher fs paths = hash_groups (partial_hash hasher fs) paths []"

text \<open>The last loop of step B: groups of at least two paths are pushed to the result.\<close>

definition collect_dupes :: "HashGroupMap \<Rightarrow> PathList list" where
  "collect_dupes full_groups = map snd (filter (\<lambda>(fhash, dupes). length dupes \<ge> 2) full_groups)"

text \<open>
  Step B for one partial-hash group: the body of the loop over \<^verbatim>\<open>partial_groups\<close>. Reading
  a file is the effect of \<^verbatim>\<open>full_hash\<close>, so the body returns, beside the groups it pushes to
  the result, the paths it passes to \<^verbatim>\<open>full_hash\<close>: none when \<^verbatim>\<open>candidates.size() < 2\<close>
  (the \<^verbatim>\<open>continue\<close>), every candidate otherwise.
\<close>

definition full_step_traced ::
  "(byte list \<Rightarrow> u64) \<Rightarrow> filesystem \<Rightarrow> PathList \<Rightarrow> PathList list \<times> PathList" where
  "full_step_traced hasher fs candidates =
     (if length candidates < 2 then ([], [])
      else (collect_dupes (hash_groups (full_hash hasher fs) candidates []), candidates))"

text \<open>The groups that the body pushes to the result.\<close>

definition full_step :: "(byte list \<Rightarrow> u64) \<Rightarrow> filesystem \<Rightarrow> PathList \<Rightarrow> PathList list" where
  "full_step hasher fs candidates = fst (full_step_traced hasher fs candidates)"

text \<open>The body of the loop over \<^verbatim>\<open>size_groups\<close>.\<close>

definition refine_size_group :: "(byte list \<Rightarrow> u64) \<Rightarrow> filesystem \<Rightarrow> PathList \<Rightarrow> PathList list" where
  "refine_size_group hasher fs paths =
     concat (map (\<lambda>(phash, candidates). full_step hasher fs candidates)
                 (partial_groups hasher fs paths))"

definition find_duplicates :: "(byte list \<Rightarrow> u64) \<Rightarrow> filesystem \<Rightarrow> error + PathList list" where
  "find_duplicates hasher fs =
     (case group_by_size fs of
        Inl e \<Rightarrow> Inl e
      | Inr size_groups \<Rightarrow>
          Inr (concat (map (\<lambda>(size, paths). refine_size_group hasher fs paths) size_groups)))"

text \<open>
  The paths that the run passes to \<^verbatim>\<open>full_hash\<close>: for one size group, and for the whole of
  \<^verbatim>\<open>find_duplicates\<close>, in the order of the calls.
\<close>

definition full_hash_calls :: "(byte list \<Rightarrow> u64) \<Rightarrow> filesystem \<Rightarrow> PathList \<Rightarrow> PathList" where
  "full_hash_calls hasher fs paths =
     concat (map (\<lambda>(phash, candidates). snd (full_step_traced hasher fs candidates))
                 (partial_groups hasher fs paths))"

definition full_hash_log :: "(byte list \<Rightarrow> u64) \<Rightarrow> filesystem \<Rightarrow> error + PathList" where
  "full_hash_log hasher fs =
     (case group_by_size fs of
        Inl e \<Rightarrow> Inl e
      | Inr size_groups \<Rightarrow>
          Inr (concat (map (\<lambda>(size, paths). full_hash_calls hasher fs paths) size_groups)))"

section \<open>Reporting\<close>

text \<open>
  The reporting loop of \<^verbatim>\<open>main\<close>, after the root has been validated. For each group:
  \<^verbatim>\<open>file_size = fs::file_size(group[0]); wasted = file_size * (group.size() - 1);\<close>
  \<^verbatim>\<open>total_wasted += wasted;\<close> in \<^verbatim>\<open>uintmax_t\<close>. \<^verbatim>\<open>group[0]\<close> of an empty vector is undefined
  behaviour and \<^verbatim>\<open>fs::file_size\<close> of a path that is not a regular file throws; both are
  errors of the model.
\<close>

record group_line =
  count :: u64
  each_size :: u64
  wasted :: u64

definition group_stats :: "filesystem \<Rightarrow> PathList \<Rightarrow> error + group_line" where
  "group_stats fs grp =
     (case grp of
        [] \<Rightarrow> Inl EmptyGroup
      | p # _ \<Rightarrow>
          if is_regular_file fs p
          then Inr \<lparr>count = of_nat (length grp), each_size = of_nat (file_size fs p),
                    wasted = of_nat (file_size fs p) * (of_nat (length grp) - 1)\<rparr>
          else Inl FilesystemError)"

fun report_loop :: "filesystem \<Rightarrow> PathList list \<Rightarrow> u64 \<Rightarrow> error + (group_line list \<times> u64)" where
  "report_loop fs [] total_wasted = Inr ([], total_wasted)"
| "report_loop fs (grp # duplicates) total_wasted =
     (case group_stats fs grp of
        Inl e \<Rightarrow> Inl e
      | Inr ln \<Rightarrow>
          (case report_loop fs duplicates (total_wasted + wasted ln) of
             Inl e \<Rightarrow> Inl e
           | Inr (lns, tw) \<Rightarrow> Inr (ln # lns, tw)))"

definition main_report :: "(byte list \<Rightarrow> u64) \<Rightarrow> filesystem \<Rightarrow> error + (group_line list \<times> u64)" where
  "main_report hasher fs =
     (case find_duplicates hasher fs of
        Inl e \<Rightarrow> Inl e
      | Inr duplicates \<Rightarrow> report_loop fs duplicates 0)"

section \<open>Notions used to state the properties\<close>

text \<open>The paths the iterator yields, in its order.\<close>

fun entry_paths :: "dir_event list \<Rightarrow> PathList" where
  "entry_paths [] = []"
| "entry_paths (Entry p # es) = p # entry_paths es"
| "entry_paths (IterThrows # es) = entry_paths es"

text \<open>
  The common shape of both grouping iterations: every accepted element is appended to the
  group of its key.
\<close>

fun group_into :: "('a \<Rightarrow> 'k) \<Rightarrow> ('a \<Rightarrow> bool) \<Rightarrow> 'a list \<Rightarrow> ('k, 'a) umap \<Rightarrow> ('k, 'a) umap" where
  "group_into key ok [] m = m"
| "group_into key ok (x # xs) m =
     group_into key ok xs (if ok x then push_back_at (key x) x m else m)"

definition members :: "('k, 'v) umap \<Rightarrow> 'k \<Rightarrow> 'v list" where
  "members m k = (case map_of m k of None \<Rightarrow> [] | Some vs \<Rightarrow> vs)"

definition umap_inv :: "('k, 'v) umap \<Rightarrow> bool" where
  "umap_inv m = (distinct (map fst m) \<and> [] \<notin> set (map snd m))"

text \<open>
  The listed paths that are regular files of size \<open>s\<close> with partial fingerprint \<open>ph\<close> and
  full fingerprint \<open>fh\<close>, in the order of the listing.
\<close>

definition dup_class ::
  "(byte list \<Rightarrow> u64) \<Rightarrow> filesystem \<Rightarrow> FileSize \<Rightarrow> HashString \<Rightarrow> HashString \<Rightarrow> PathList" where
  "dup_class hasher fs s ph fh =
     filter (\<lambda>p. is_regular_file fs p \<and> file_size fs p = s \<and>
                 partial_hash hasher fs p = ph \<and> full_hash hasher fs p = fh)
            (entry_paths (listing fs))"

text \<open>
  The listed paths that are regular files of size \<open>s\<close> with partial fingerprint \<open>ph\<close>, in
  the order of the listing.
\<close>

definition partial_class ::
  "(byte list \<Rightarrow> u64) \<Rightarrow> filesystem \<Rightarrow> FileSize \<Rightarrow> HashString \<Rightarrow> PathList" where
  "partial_class hasher fs s ph =
     filter (\<lambda>p. is_regular_file fs p \<and> file_size fs p = s \<and> partial_hash hasher fs p = ph)
            (entry_paths (listing fs))"

text \<open>
  The fingerprint as the specification describes it, written without the read loop: the
  bytes are cut into blocks of 8192 (the last one may be shorter), each block is reduced
  by the block hash and folded, in order, into the two accumulators, which start at zero
  and are printed as 32 hexadecimal characters.
\<close>

function chunks :: "nat \<Rightarrow> 'a list \<Rightarrow> 'a list list" where
  "chunks n xs = (if n = 0 \<or> xs = [] then [] else take n xs # chunks n (drop n xs))"
  by pat_completeness auto
termination
  by (relation "measure (\<lambda>(n, xs). length xs)") auto

definition fold_blocks :: "(byte list \<Rightarrow> u64) \<Rightarrow> u64 \<times> u64 \<Rightarrow> byte list list \<Rightarrow> u64 \<times> u64" where
  "fold_blocks hasher acc blocks =
     foldl (\<lambda>(hash1, hash2) block.
              (hash1_step hash1 (hasher block), hash2_step hash2 (hasher block))) acc blocks"

definition fingerprint_spec :: "(byte list \<Rightarrow> u64) \<Rightarrow> byte list \<Rightarrow> HashString" where
  "fingerprint_spec hasher bytes =
     (case fold_blocks hasher (0, 0) (chunks 8192 bytes) of
        (hash1, hash2) \<Rightarrow> hex16 hash1 @ hex16 hash2)"

text \<open>The listing with every entry for the path \<open>p\<close> taken out.\<close>

definition without_entry :: "path \<Rightarrow> filesystem \<Rightarrow> filesystem" where
  "without_entry p fs = fs\<lparr>listing := filter (\<lambda>e. e \<noteq> Entry p) (listing fs)\<rparr>"

text \<open>The listing with every failure of the iterator taken out.\<close>

definition without_failures :: "filesystem \<Rightarrow> filesystem" where
  "without_failures fs = fs\<lparr>listing := filter (\<lambda>e. e \<noteq> IterThrows) (listing fs)\<rparr>"

section \<open>Concrete file systems\<close>

text \<open>A concrete block hash, standing for \<^verbatim>\<open>std::hash<std::string>\<close> in the examples.\<close>

definition hasher0 :: "byte list \<Rightarrow> u64" where
  "hasher0 bytes = foldl (\<lambda>h b. h * 131 + ucast b) 7 bytes"

definition plain_file :: "byte list \<Rightarrow> file_node" where
  "plain_file bytes = \<lparr>ftype = Regular, is_symlink = False, content = bytes, readable = True\<rparr>"

definition absent :: file_node where
  "absent = \<lparr>ftype = NotFound, is_symlink = False, content = [], readable = False\<rparr>"

text \<open>
  A directory \<open>d\<close> holding \<open>d/a\<close>; \<open>d/a\<close> and \<open>b\<close> with the same three bytes; \<open>c\<close> of the
  same size with other bytes; \<open>u\<close> with the bytes of \<open>b\<close> but not readable; \<open>e\<close> alone in
  its size.
\<close>

definition fs_A :: filesystem where
  "fs_A = \<lparr>listing = [Entry ''d'', Entry ''d/a'', Entry ''b'', Entry ''c'', Entry ''u'', Entry ''e''],
           node = (\<lambda>p.
             if p = ''d'' then \<lparr>ftype = Directory, is_symlink = False, content = [], readable = False\<rparr>
             else if p = ''d/a'' then plain_file [1, 2, 3]
             else if p = ''b'' then plain_file [1, 2, 3]
             else if p = ''c'' then plain_file [1, 2, 4]
             else if p = ''u'' then \<lparr>ftype = Regular, is_symlink = False, content = [1, 2, 3], readable = False\<rparr>
             else if p = ''e'' then plain_file [9]
             else absent)\<rparr>"

text \<open>A directory with exactly two files, both of zero bytes.\<close>

definition fs_zero :: filesystem where
  "fs_zero = \<lparr>listing = [Entry ''x'', Entry ''y''],
              node = (\<lambda>p. if p = ''x'' \<or> p = ''y'' then plain_file [] else absent)\<rparr>"

text \<open>
  Two equal files \<open>a\<close> and \<open>b\<close>, then a directory \<open>locked\<close> that the iterator may not open:
  the iterator yields the directory and fails on the next increment.
\<close>

definition fs_throw :: filesystem where
  "fs_throw = \<lparr>listing = [Entry ''a'', Entry ''b'', Entry ''locked'', IterThrows],
               node = (\<lambda>p.
                 if p = ''a'' \<or> p = ''b'' then plain_file [1, 2, 3]
                 else if p = ''locked'' then \<lparr>ftype = Directory, is_symlink = False, content = [], readable = False\<rparr>
                 else absent)\<rparr>"

text \<open>A regular file \<open>a\<close> and a symbolic link \<open>link\<close> to it.\<close>

definition fs_link :: filesystem where
  "fs_link = \<lparr>listing = [Entry ''a'', Entry ''link''],
              node = (\<lambda>p.
                if p = ''a'' then plain_file [1, 2, 3]
                else if p = ''link'' then \<lparr>ftype = Regular, is_symlink = True, content = [1, 2, 3], readable = True\<rparr>
                else absent)\<rparr>"

section \<open>The fingerprint loop\<close>

declare read_loop.simps [simp del]
declare hex_of_nat.simps [simp del]
declare chunks.simps [simp del]

lemma full_step_eq:
  "full_step hasher fs candidates =
     (if length candidates < 2 then []
      else collect_dupes (hash_groups (full_hash hasher fs) candidates []))"
  by (simp add: full_step_def full_step_traced_def)

lemma full_step_traced_calls:
  "snd (full_step_traced hasher fs candidates) = (if length candidates < 2 then [] else candidates)"
  by (simp add: full_step_traced_def)

lemma read_loop_nil: "read_loop H mx [] h1 h2 t = (h1, h2)"
  by (subst read_loop.simps) (auto simp: Let_def min_def split: if_splits)

lemma read_loop_more:
  assumes "8192 \<le> length rest" "mx = 0 \<or> t + 8192 < mx"
  shows "read_loop H mx rest h1 h2 t =
         read_loop H mx (drop 8192 rest) (hash1_step h1 (H (take 8192 rest)))
           (hash2_step h2 (H (take 8192 rest))) (t + 8192)"
proof -
  have tr: "(if mx > 0 then min 8192 (mx - t) else 8192) = 8192"
    using assms(2) by auto
  have ln: "length (take 8192 rest) = 8192" using assms(1) by simp
  show ?thesis
    apply (subst read_loop.simps)
    unfolding Let_def tr ln
    using assms(2) by auto
qed

lemma read_loop_short:
  assumes "rest \<noteq> []" "length rest < 8192" "mx = 0 \<or> t + length rest < mx"
  shows "read_loop H mx rest h1 h2 t = (hash1_step h1 (H rest), hash2_step h2 (H rest))"
proof -
  define n where "n = (if mx > 0 then min 8192 (mx - t) else 8192)"
  have n: "length rest < n" using assms by (auto simp: n_def)
  then have tk: "take n rest = rest" by simp
  show ?thesis
    apply (subst read_loop.simps)
    unfolding Let_def n_def[symmetric] tk
    using assms n by auto
qed

lemma read_loop_break:
  assumes "t < mx" "mx - t \<le> 8192" "mx - t \<le> length rest"
  shows "read_loop H mx rest h1 h2 t =
         (hash1_step h1 (H (take (mx - t) rest)), hash2_step h2 (H (take (mx - t) rest)))"
proof -
  have tr: "(if mx > 0 then min 8192 (mx - t) else 8192) = mx - t"
    using assms by auto
  have ln: "length (take (mx - t) rest) = mx - t" using assms by simp
  show ?thesis
    apply (subst read_loop.simps)
    unfolding Let_def tr ln
    using assms by auto
qed

lemma read_loop_exact:
  assumes "length rest = 8192"
  shows "read_loop H 0 rest h1 h2 t = (hash1_step h1 (H rest), hash2_step h2 (H rest))"
  using read_loop_more[of rest 0 t H h1 h2] assms by (simp add: read_loop_nil)

lemma read_loop_unlimited_total:
  "read_loop H 0 rest h1 h2 t = read_loop H 0 rest h1 h2 t'"
proof (induction "length rest" arbitrary: rest h1 h2 t t' rule: less_induct)
  case less
  consider (empty) "rest = []" | (short) "rest \<noteq> []" "length rest < 8192" | (more) "8192 \<le> length rest"
    by linarith
  then show ?case
  proof cases
    case empty then show ?thesis by (simp add: read_loop_nil)
  next
    case short then show ?thesis by (simp add: read_loop_short)
  next
    case more
    then have "length (drop 8192 rest) < length rest" by simp
    from less[OF this] more show ?thesis by (simp add: read_loop_more)
  qed
qed

lemma read_loop_limit:
  "t < mx \<Longrightarrow> read_loop H mx rest h1 h2 t = read_loop H 0 (take (mx - t) rest) h1 h2 t"
proof (induction "length rest" arbitrary: rest h1 h2 t rule: less_induct)
  case less
  define r where "r = mx - t"
  have r: "0 < r" "mx = t + r" using less.prems by (auto simp: r_def)
  consider (empty) "rest = []"
    | (short) "rest \<noteq> []" "length rest < 8192" "length rest < r"
    | (brk) "r \<le> 8192" "r \<le> length rest"
    | (more) "8192 < r" "8192 \<le> length rest"
    by linarith
  then show ?case
  proof cases
    case empty
    then show ?thesis by (simp add: read_loop_nil)
  next
    case short
    then have tk: "take (mx - t) rest = rest" by (simp add: r_def)
    have "t + length rest < mx" using short r by simp
    then have "read_loop H mx rest h1 h2 t = (hash1_step h1 (H rest), hash2_step h2 (H rest))"
      using short by (intro read_loop_short) auto
    moreover have "read_loop H 0 rest h1 h2 t = (hash1_step h1 (H rest), hash2_step h2 (H rest))"
      using short by (intro read_loop_short) auto
    ultimately show ?thesis unfolding tk by simp
  next
    case brk
    have L: "read_loop H mx rest h1 h2 t =
        (hash1_step h1 (H (take r rest)), hash2_step h2 (H (take r rest)))"
      using read_loop_break[of t mx rest H h1 h2] brk less.prems unfolding r_def by simp
    have R: "read_loop H 0 (take r rest) h1 h2 t =
        (hash1_step h1 (H (take r rest)), hash2_step h2 (H (take r rest)))"
    proof (cases "r = 8192")
      case True
      then show ?thesis using brk read_loop_exact[of "take r rest" H h1 h2 t] by simp
    next
      case False
      then have "take r rest \<noteq> []" "length (take r rest) < 8192"
        using brk r(1) by auto
      then show ?thesis by (intro read_loop_short) auto
    qed
    show ?thesis using L R unfolding r_def by simp
  next
    case more
    have sh: "length (drop 8192 rest) < length rest" using more by simp
    have t': "t + 8192 < mx" using more r by linarith
    have tk: "take 8192 (take r rest) = take 8192 rest" using more by (simp add: min_def)
    have "r - 8192 = mx - (t + 8192)" unfolding r_def by simp
    then have d: "drop 8192 (take r rest) = take (mx - (t + 8192)) (drop 8192 rest)"
      by (simp add: drop_take)
    have L: "read_loop H mx rest h1 h2 t =
       read_loop H mx (drop 8192 rest) (hash1_step h1 (H (take 8192 rest)))
           (hash2_step h2 (H (take 8192 rest))) (t + 8192)"
      using read_loop_more[of rest mx t H h1 h2] more t' by simp
    have R: "read_loop H 0 (take r rest) h1 h2 t =
       read_loop H 0 (drop 8192 (take r rest)) (hash1_step h1 (H (take 8192 rest)))
           (hash2_step h2 (H (take 8192 rest))) (t + 8192)"
      using read_loop_more[of "take r rest" 0 t H h1 h2] more tk by simp
    show ?thesis
      unfolding L r_def[symmetric] R d
      using less.hyps[OF sh t'] by simp
  qed
qed

lemma hash_bytes_limit:
  "0 < mx \<Longrightarrow> hash_bytes H bytes mx = hash_bytes H (take mx bytes) 0"
  using read_loop_limit[of 0 mx H bytes 0 0] by (simp add: hash_bytes_def)

section \<open>The printed fingerprint\<close>

lemma length_hex_of_nat: "0 < k \<Longrightarrow> n < 16 ^ k \<Longrightarrow> length (hex_of_nat n) \<le> k"
proof (induction k arbitrary: n)
  case 0
  then show ?case by simp
next
  case (Suc k)
  show ?case
  proof (cases "n < 16")
    case True
    then show ?thesis by (subst hex_of_nat.simps) simp
  next
    case False
    then have k: "0 < k" using Suc.prems by (cases k) auto
    have "n div 16 < 16 ^ k" using Suc.prems(2) by (simp add: less_mult_imp_div_less mult.commute)
    from Suc.IH[OF k this] False show ?thesis by (subst hex_of_nat.simps) simp
  qed
qed

lemma length_hex16: "length (hex16 h) = 16"
proof -
  have "unat h < 2 ^ 64" using unsigned_less[of h] by simp
  then have "unat h < 16 ^ 16" by simp
  then have "length (hex_of_nat (unat h)) \<le> 16" by (intro length_hex_of_nat) auto
  then show ?thesis by (simp add: hex16_def setw_fill_def)
qed

lemma length_hash_bytes: "length (hash_bytes H bytes mx) = 32"
  by (simp add: hash_bytes_def length_hex16 split: prod.splits)

lemma hash_bytes_not_empty: "hash_bytes H bytes mx \<noteq> []"
  using length_hash_bytes[of H bytes mx] by auto

lemma replicate_numeral: "replicate (numeral k) c = c # replicate (pred_numeral k) c"
  by (simp add: numeral_eq_Suc)

lemma hex16_zero: "hex16 0 = replicate 16 (CHR ''0'')"
  by (simp add: hex16_def setw_fill_def hex_digit_def hex_of_nat.simps replicate_numeral)

section \<open>Grouping\<close>

lemma umap_mem: "umap_inv m \<Longrightarrow> (k, vs) \<in> set m \<longleftrightarrow> vs \<noteq> [] \<and> members m k = vs"
proof -
  assume inv: "umap_inv m"
  then have d: "distinct (map fst m)" and ne: "[] \<notin> snd ` set m"
    by (auto simp: umap_inv_def)
  show ?thesis
  proof
    assume "(k, vs) \<in> set m"
    then show "vs \<noteq> [] \<and> members m k = vs"
      using ne map_of_eq_Some_iff[OF d, of k vs] by (force simp: members_def)
  next
    assume a: "vs \<noteq> [] \<and> members m k = vs"
    then obtain ws where "map_of m k = Some ws" "ws = vs"
      by (cases "map_of m k") (auto simp: members_def)
    then show "(k, vs) \<in> set m" using map_of_eq_Some_iff[OF d, of k vs] by simp
  qed
qed

lemma keys_push_back_at:
  "map fst (push_back_at k v m) = (if k \<in> set (map fst m) then map fst m else map fst m @ [k])"
  by (induction k v m rule: push_back_at.induct) (auto simp: rev_image_eqI)

lemma vals_push_back_at:
  "[] \<notin> set (map snd m) \<Longrightarrow> [] \<notin> set (map snd (push_back_at k v m))"
  by (induction k v m rule: push_back_at.induct) auto

lemma umap_inv_push: "umap_inv m \<Longrightarrow> umap_inv (push_back_at k v m)"
  unfolding umap_inv_def using vals_push_back_at[of m k v] by (simp add: keys_push_back_at)

lemma members_push: "members (push_back_at k v m) k' = (if k' = k then members m k @ [v] else members m k')"
  by (induction m) (auto simp: members_def)

lemma umap_inv_group_into: "umap_inv m \<Longrightarrow> umap_inv (group_into key ok xs m)"
  by (induction xs arbitrary: m) (auto simp: umap_inv_push)

lemma members_group_into:
  "members (group_into key ok xs m) k = members m k @ filter (\<lambda>x. ok x \<and> key x = k) xs"
  by (induction xs arbitrary: m) (auto simp: members_push)

lemma group_into_mem:
  "(k, vs) \<in> set (group_into key ok xs []) \<longleftrightarrow>
     vs \<noteq> [] \<and> vs = filter (\<lambda>x. ok x \<and> key x = k) xs"
proof -
  have "umap_inv (group_into key ok xs [])"
    by (rule umap_inv_group_into) (simp add: umap_inv_def)
  from umap_mem[OF this, of k vs] show ?thesis
    unfolding members_group_into by (auto simp: members_def)
qed

lemma hash_groups_eq: "hash_groups h ps m = group_into h (\<lambda>p. h p \<noteq> []) ps m"
  by (induction ps arbitrary: m) auto

lemma scan_entries_eq:
  "scan_entries fs es m =
     (if IterThrows \<in> set es then Inl FilesystemError
      else Inr (group_into (file_size fs) (is_regular_file fs) (entry_paths es) m))"
  by (induction fs es m rule: scan_entries.induct) auto

lemma length_filter_conj_le:
  "length (filter (\<lambda>x. P x \<and> Q x) xs) \<le> length (filter P xs)"
  by (induction xs) auto

lemma collect_dupes_mem:
  "g \<in> set (collect_dupes m) \<longleftrightarrow> (\<exists>k. (k, g) \<in> set m \<and> 2 \<le> length g)"
  by (force simp: collect_dupes_def)

lemma hash_groups_mem:
  "(k, vs) \<in> set (hash_groups h ps []) \<longleftrightarrow>
     k \<noteq> [] \<and> vs \<noteq> [] \<and> vs = filter (\<lambda>p. h p = k) ps"
proof (cases "k = []")
  case True
  then show ?thesis by (auto simp: hash_groups_eq group_into_mem)
next
  case False
  then have "filter (\<lambda>p. h p \<noteq> [] \<and> h p = k) ps = filter (\<lambda>p. h p = k) ps"
    by (intro filter_cong) auto
  then show ?thesis using False by (auto simp: hash_groups_eq group_into_mem)
qed

lemma full_step_mem:
  "g \<in> set (full_step H fs cands) \<longleftrightarrow>
     (\<exists>fh. fh \<noteq> [] \<and> g = filter (\<lambda>p. full_hash H fs p = fh) cands \<and> 2 \<le> length g)"
proof (cases "length cands < 2")
  case True
  have "\<not> 2 \<le> length (filter (\<lambda>p. full_hash H fs p = fh) cands)" for fh
    using True length_filter_le[of "\<lambda>p. full_hash H fs p = fh" cands] by linarith
  then show ?thesis using True by (auto simp: full_step_eq)
next
  case False
  then show ?thesis
    by (auto simp: full_step_eq collect_dupes_mem hash_groups_mem)
qed

lemma refine_size_group_mem:
  "g \<in> set (refine_size_group H fs paths) \<longleftrightarrow>
     (\<exists>ph fh. ph \<noteq> [] \<and> fh \<noteq> [] \<and>
        g = filter (\<lambda>p. partial_hash H fs p = ph \<and> full_hash H fs p = fh) paths \<and>
        2 \<le> length g)"
proof
  assume "g \<in> set (refine_size_group H fs paths)"
  then obtain ph cands where pc: "(ph, cands) \<in> set (partial_groups H fs paths)"
    and g: "g \<in> set (full_step H fs cands)"
    by (auto simp: refine_size_group_def)
  from pc have ph: "ph \<noteq> []" and cands: "cands = filter (\<lambda>p. partial_hash H fs p = ph) paths"
    by (auto simp: partial_groups_def hash_groups_mem)
  from g obtain fh where fh: "fh \<noteq> []" "g = filter (\<lambda>p. full_hash H fs p = fh) cands" "2 \<le> length g"
    by (auto simp: full_step_mem)
  have "g = filter (\<lambda>p. partial_hash H fs p = ph \<and> full_hash H fs p = fh) paths"
    unfolding fh(2) cands by (simp add: conj_commute)
  with ph fh show "\<exists>ph fh. ph \<noteq> [] \<and> fh \<noteq> [] \<and>
        g = filter (\<lambda>p. partial_hash H fs p = ph \<and> full_hash H fs p = fh) paths \<and>
        2 \<le> length g" by blast
next
  assume "\<exists>ph fh. ph \<noteq> [] \<and> fh \<noteq> [] \<and>
        g = filter (\<lambda>p. partial_hash H fs p = ph \<and> full_hash H fs p = fh) paths \<and>
        2 \<le> length g"
  then obtain ph fh where ph: "ph \<noteq> []" and fh: "fh \<noteq> []"
    and g: "g = filter (\<lambda>p. partial_hash H fs p = ph \<and> full_hash H fs p = fh) paths"
    and len: "2 \<le> length g" by blast
  define cands where "cands = filter (\<lambda>p. partial_hash H fs p = ph) paths"
  have "length g \<le> length cands"
    unfolding g cands_def by (rule length_filter_conj_le)
  with len have "cands \<noteq> []" by auto
  then have pc: "(ph, cands) \<in> set (partial_groups H fs paths)"
    using ph by (simp add: partial_groups_def hash_groups_mem cands_def)
  have "g = filter (\<lambda>p. full_hash H fs p = fh) cands"
    unfolding g cands_def by (simp add: conj_commute)
  with fh len have "g \<in> set (full_step H fs cands)"
    by (auto simp: full_step_mem)
  with pc show "g \<in> set (refine_size_group H fs paths)"
    by (force simp: refine_size_group_def)
qed

lemma group_by_size_eq:
  "group_by_size fs =
     (if IterThrows \<in> set (listing fs) then Inl FilesystemError
      else Inr (erase_singletons
             (group_into (file_size fs) (is_regular_file fs) (entry_paths (listing fs)) [])))"
  by (simp add: group_by_size_def scan_entries_eq)

lemma group_by_size_mem:
  assumes "group_by_size fs = Inr size_groups"
  shows "(s, ps) \<in> set size_groups \<longleftrightarrow>
     ps = filter (\<lambda>p. is_regular_file fs p \<and> file_size fs p = s) (entry_paths (listing fs)) \<and>
     2 \<le> length ps"
proof -
  from assms have "size_groups = erase_singletons
      (group_into (file_size fs) (is_regular_file fs) (entry_paths (listing fs)) [])"
    by (simp add: group_by_size_eq split: if_splits)
  then show ?thesis
    by (auto simp: erase_singletons_def group_into_mem)
qed

lemma find_duplicates_mem:
  assumes "find_duplicates H fs = Inr out"
  shows "g \<in> set out \<longleftrightarrow>
     (\<exists>s ph fh. ph \<noteq> [] \<and> fh \<noteq> [] \<and> g = dup_class H fs s ph fh \<and> 2 \<le> length g)"
proof -
  from assms obtain sg where sg: "group_by_size fs = Inr sg"
    and out: "out = concat (map (\<lambda>(size, paths). refine_size_group H fs paths) sg)"
    by (auto simp: find_duplicates_def split: sum.splits)
  let ?all = "entry_paths (listing fs)"
  let ?S = "\<lambda>s. filter (\<lambda>p. is_regular_file fs p \<and> file_size fs p = s) ?all"
  have fuse: "filter (\<lambda>p. partial_hash H fs p = ph \<and> full_hash H fs p = fh) (?S s)
              = dup_class H fs s ph fh" for s ph fh
    unfolding dup_class_def by (auto intro: filter_cong)
  show ?thesis
  proof
    assume "g \<in> set out"
    then obtain s ps where sp: "(s, ps) \<in> set sg" and g: "g \<in> set (refine_size_group H fs ps)"
      by (auto simp: out)
    from sp have ps: "ps = ?S s" using group_by_size_mem[OF sg] by simp
    from g show "\<exists>s ph fh. ph \<noteq> [] \<and> fh \<noteq> [] \<and> g = dup_class H fs s ph fh \<and> 2 \<le> length g"
      unfolding refine_size_group_mem ps fuse by blast
  next
    assume "\<exists>s ph fh. ph \<noteq> [] \<and> fh \<noteq> [] \<and> g = dup_class H fs s ph fh \<and> 2 \<le> length g"
    then obtain s ph fh where ph: "ph \<noteq> []" "fh \<noteq> []"
      and g: "g = dup_class H fs s ph fh" and len: "2 \<le> length g" by blast
    have "length g \<le> length (?S s)"
      unfolding g fuse[symmetric] by (rule length_filter_le)
    with len have "(s, ?S s) \<in> set sg" using group_by_size_mem[OF sg] by simp
    moreover have "g \<in> set (refine_size_group H fs (?S s))"
      unfolding refine_size_group_mem fuse using ph g len by blast
    ultimately show "g \<in> set out" by (force simp: out)
  qed
qed

section \<open>Arithmetic of the report\<close>

lemma unat_of_nat_mult_pred:
  "s * (n - 1) < 2 ^ 64 \<Longrightarrow> 0 < n \<Longrightarrow> unat ((of_nat s :: u64) * (of_nat n - 1)) = s * (n - 1)"
proof -
  assume a: "s * (n - 1) < 2 ^ 64" and n: "0 < n"
  have "(of_nat n :: u64) - 1 = of_nat (n - 1)" using n by (cases n) auto
  then have "(of_nat s :: u64) * (of_nat n - 1) = of_nat (s * (n - 1))" by simp
  then show ?thesis using a by (simp add: unat_of_nat del: of_nat_mult)
qed

lemma unat_sum_list:
  "sum_list (map unat (ws :: u64 list)) < 2 ^ 64 \<Longrightarrow> unat (sum_list ws) = sum_list (map unat ws)"
proof (induction ws)
  case Nil
  then show ?case by simp
next
  case (Cons w ws)
  then have "unat (sum_list ws) = sum_list (map unat ws)" by simp
  then show ?case using Cons.prems by (simp add: unat_word_ariths)
qed

section \<open>Files of at most one chunk\<close>

lemma read_loop_single_chunk:
  assumes "bytes \<noteq> []" "length bytes \<le> 4096" "mx = 0 \<or> mx = 4096"
  shows "read_loop H mx bytes h1 h2 0 = (hash1_step h1 (H bytes), hash2_step h2 (H bytes))"
proof (cases "mx = 4096 \<and> length bytes = 4096")
  case True
  then show ?thesis using read_loop_break[of 0 mx bytes H h1 h2] by simp
next
  case False
  then have "mx = 0 \<or> 0 + length bytes < mx" using assms by auto
  moreover have "length bytes < 8192" using assms by simp
  ultimately show ?thesis using assms(1) by (intro read_loop_short) auto
qed

lemma hash_bytes_single_chunk:
  assumes "bytes \<noteq> []" "length bytes \<le> 4096" "mx = 0 \<or> mx = 4096"
  shows "hash_bytes H bytes mx = hex16 (hash1_step 0 (H bytes)) @ hex16 (hash2_step 0 (H bytes))"
  using read_loop_single_chunk[OF assms] by (simp add: hash_bytes_def)

lemma hash_bytes_nil: "hash_bytes H [] mx = replicate 32 (CHR ''0'')"
  by (simp add: hash_bytes_def read_loop_nil hex16_zero flip: replicate_add)

section \<open>The concrete file systems, evaluated\<close>

lemma hash_123:
  "mx = 0 \<or> mx = 4096 \<Longrightarrow> hash_bytes hasher0 [1, 2, 3] mx = ''000000009f27dd08000000001d1c0691''"
  by (subst hash_bytes_single_chunk)
     (simp_all add: hasher0_def hash1_step_def hash2_step_def hex16_def setw_fill_def
        hex_digit_def hex_of_nat.simps replicate_numeral)

lemma hash_124:
  "mx = 0 \<or> mx = 4096 \<Longrightarrow> hash_bytes hasher0 [1, 2, 4] mx = ''000000009f27dd09000000001d1c06b0''"
  by (subst hash_bytes_single_chunk)
     (simp_all add: hasher0_def hash1_step_def hash2_step_def hex16_def setw_fill_def
        hex_digit_def hex_of_nat.simps replicate_numeral)

lemma hash_9:
  "mx = 0 \<or> mx = 4096 \<Longrightarrow> hash_bytes hasher0 [9] mx = ''000000009e377d570000000000007022''"
  by (subst hash_bytes_single_chunk)
     (simp_all add: hasher0_def hash1_step_def hash2_step_def hex16_def setw_fill_def
        hex_digit_def hex_of_nat.simps replicate_numeral)

lemmas eval_defs = find_duplicates_def group_by_size_def erase_singletons_def
  refine_size_group_def partial_groups_def full_step_eq collect_dupes_def
  partial_hash_def full_hash_def compute_hash_def PARTIAL_READ_SIZE_def
  is_regular_file_def file_size_def plain_file_def absent_def

lemma fs_A_size_groups: "group_by_size fs_A = Inr [(3, [''d/a'', ''b'', ''c'', ''u''])]"
  by (simp add: fs_A_def eval_defs)

lemma fs_A_duplicates: "find_duplicates hasher0 fs_A = Inr [[''d/a'', ''b'']]"
  by (simp add: fs_A_def eval_defs hash_123 hash_124 hash_9)

lemma fs_A_report:
  "main_report hasher0 fs_A = Inr ([\<lparr>count = 2, each_size = 3, wasted = 3\<rparr>], 3)"
  by (simp add: main_report_def fs_A_duplicates group_stats_def)
     (simp add: fs_A_def eval_defs)

section \<open>Further facts about the pipeline\<close>

lemma group_into_same_key:
  "\<forall>x\<in>set xs. ok x \<and> key x = k \<Longrightarrow> group_into key ok xs [(k, ys)] = [(k, ys @ xs)]"
  by (induction xs arbitrary: ys) auto

lemma group_into_one_class:
  "xs \<noteq> [] \<Longrightarrow> \<forall>x\<in>set xs. ok x \<and> key x = k \<Longrightarrow> group_into key ok xs [] = [(k, xs)]"
  using group_into_same_key[of "tl xs" ok key k "[hd xs]"]
  by (cases xs) auto

lemma entry_paths_mem: "p \<in> set (entry_paths es) \<longleftrightarrow> Entry p \<in> set es"
  by (induction es rule: entry_paths.induct) auto

lemma two_members: "a \<in> set xs \<Longrightarrow> b \<in> set xs \<Longrightarrow> a \<noteq> b \<Longrightarrow> 2 \<le> length xs"
proof -
  assume a: "a \<in> set xs" "b \<in> set xs" "a \<noteq> b"
  then have "card {a, b} \<le> card (set xs)" by (intro card_mono) auto
  also have "\<dots> \<le> length xs" by (rule card_length)
  finally show ?thesis using a(3) by simp
qed

lemma find_duplicates_total:
  "IterThrows \<notin> set (listing fs) \<Longrightarrow> \<exists>out. find_duplicates H fs = Inr out"
  by (simp add: find_duplicates_def group_by_size_eq)

lemma compute_hash_readable: "readable (node fs p) \<Longrightarrow> compute_hash H fs p mx \<noteq> []"
  by (simp add: compute_hash_def hash_bytes_not_empty)

section \<open>Members of the emitted groups\<close>

lemma find_duplicates_members:
  assumes "find_duplicates H fs = Inr out" "g \<in> set out" "p \<in> set g"
  shows "is_regular_file fs p \<and> Entry p \<in> set (listing fs) \<and>
         readable (node fs p) \<and> 2 \<le> length g"
proof -
  from assms(1,2) obtain s ph fh where ne: "ph \<noteq> []" and g: "g = dup_class H fs s ph fh"
    and len: "2 \<le> length g"
    unfolding find_duplicates_mem[OF assms(1)] by blast
  from assms(3) have "is_regular_file fs p" "Entry p \<in> set (listing fs)" "partial_hash H fs p = ph"
    by (auto simp: g dup_class_def entry_paths_mem)
  moreover from this(3) ne have "readable (node fs p)"
    by (auto simp: partial_hash_def compute_hash_def split: if_splits)
  ultimately show ?thesis using len by simp
qed

lemma find_duplicates_same_size:
  assumes "find_duplicates H fs = Inr out" "g \<in> set out" "p \<in> set g" "q \<in> set g"
  shows "file_size fs p = file_size fs q"
proof -
  from assms(1,2) obtain s ph fh where g: "g = dup_class H fs s ph fh"
    unfolding find_duplicates_mem[OF assms(1)] by blast
  with assms(3,4) show ?thesis by (auto simp: dup_class_def)
qed

section \<open>The reporting loop\<close>

lemma report_loop_length:
  "report_loop fs dups t = Inr (lns, tw) \<Longrightarrow> length lns = length dups"
  by (induction dups arbitrary: t lns tw) (auto split: sum.splits prod.splits)

lemma report_loop_total:
  "report_loop fs dups t = Inr (lns, tw) \<Longrightarrow> tw = t + sum_list (map wasted lns)"
proof (induction dups arbitrary: t lns tw)
  case Nil
  then show ?case by simp
next
  case (Cons g dups)
  from Cons.prems obtain ln rest where ln: "group_stats fs g = Inr ln"
    and rest: "report_loop fs dups (t + wasted ln) = Inr (rest, tw)" and lns: "lns = ln # rest"
    by (auto split: sum.splits prod.splits)
  from Cons.IH[OF rest] show ?case by (simp add: lns add.assoc)
qed

lemma report_loop_nth:
  "report_loop fs dups t = Inr (lns, tw) \<Longrightarrow> i < length dups \<Longrightarrow>
     group_stats fs (dups ! i) = Inr (lns ! i)"
proof (induction dups arbitrary: t lns tw i)
  case Nil
  then show ?case by simp
next
  case (Cons g dups)
  then show ?case by (cases i) (auto split: sum.splits prod.splits)
qed

lemma report_loop_defined:
  "\<forall>g\<in>set dups. g \<noteq> [] \<and> is_regular_file fs (hd g) \<Longrightarrow>
     \<exists>lns tw. report_loop fs dups t = Inr (lns, tw)"
proof (induction dups arbitrary: t)
  case Nil
  then show ?case by simp
next
  case (Cons g dups)
  from Cons.prems obtain p ps where g: "g = p # ps" and reg: "is_regular_file fs p"
    by (cases g) auto
  from reg obtain ln where ln: "group_stats fs g = Inr ln" by (simp add: group_stats_def g)
  from Cons.IH[of "t + wasted ln"] Cons.prems obtain lns tw
    where "report_loop fs dups (t + wasted ln) = Inr (lns, tw)" by auto
  with ln show ?case by simp
qed

section \<open>Taking entries out of the listing\<close>

lemma entry_paths_filter:
  "entry_paths (filter (\<lambda>e. e \<noteq> Entry p) es) = filter (\<lambda>q. q \<noteq> p) (entry_paths es)"
  by (induction es rule: entry_paths.induct) auto

lemma without_entry_simps:
  "node (without_entry p fs) = node fs"
  "listing (without_entry p fs) = filter (\<lambda>e. e \<noteq> Entry p) (listing fs)"
  "is_regular_file (without_entry p fs) = is_regular_file fs"
  "file_size (without_entry p fs) = file_size fs"
  "partial_hash H (without_entry p fs) = partial_hash H fs"
  "full_hash H (without_entry p fs) = full_hash H fs"
  by (auto simp: without_entry_def is_regular_file_def file_size_def partial_hash_def
      full_hash_def compute_hash_def fun_eq_iff)

lemma dup_class_without_entry:
  assumes "\<not> readable (node fs p)" "ph \<noteq> []"
  shows "dup_class H (without_entry p fs) s ph fh = dup_class H fs s ph fh"
proof -
  have "partial_hash H fs p = []" using assms(1) by (simp add: partial_hash_def compute_hash_def)
  then have "\<And>q. partial_hash H fs q = ph \<Longrightarrow> q \<noteq> p" using assms(2) by auto
  then show ?thesis
    unfolding dup_class_def without_entry_simps entry_paths_filter filter_filter
    by (intro filter_cong) auto
qed

lemma group_into_skip:
  "\<not> ok p \<Longrightarrow> group_into key ok (filter (\<lambda>q. q \<noteq> p) xs) m = group_into key ok xs m"
  by (induction xs arbitrary: m) auto

lemma group_by_size_without_entry:
  "\<not> is_regular_file fs p \<Longrightarrow> group_by_size (without_entry p fs) = group_by_size fs"
  by (simp add: group_by_size_eq without_entry_simps entry_paths_filter group_into_skip)

lemma group_by_size_distinct:
  assumes "group_by_size fs = Inr size_groups"
  shows "distinct (map fst size_groups)"
proof -
  let ?m = "group_into (file_size fs) (is_regular_file fs) (entry_paths (listing fs)) []"
  have "umap_inv ?m" by (rule umap_inv_group_into) (simp add: umap_inv_def)
  then have "distinct (map fst ?m)" by (simp add: umap_inv_def)
  moreover from assms have "size_groups = erase_singletons ?m"
    by (simp add: group_by_size_eq split: if_splits)
  ultimately show ?thesis by (simp add: erase_singletons_def distinct_map_filter)
qed

section \<open>More evaluations of the concrete file systems\<close>

lemma fs_A_without_u:
  "find_duplicates hasher0 (without_entry ''u'' fs_A) = Inr [[''d/a'', ''b'']]"
  by (simp add: without_entry_def fs_A_def eval_defs hash_123 hash_124 hash_9)

lemma fs_throw_skipped:
  "group_by_size (without_failures fs_throw) = Inr [(3, [''a'', ''b''])]"
  "find_duplicates hasher0 (without_failures fs_throw) = Inr [[''a'', ''b'']]"
  by (simp_all add: without_failures_def fs_throw_def eval_defs hash_123)

section \<open>The fingerprint as a fold over blocks\<close>

lemma chunks_nil: "chunks n [] = []"
  by (subst chunks.simps) simp

lemma chunks_cons: "0 < n \<Longrightarrow> xs \<noteq> [] \<Longrightarrow> chunks n xs = take n xs # chunks n (drop n xs)"
  by (subst chunks.simps) simp

lemma concat_chunks: "0 < n \<Longrightarrow> concat (chunks n xs) = xs"
proof (induction "length xs" arbitrary: xs rule: less_induct)
  case less
  show ?case
  proof (cases "xs = []")
    case True
    then show ?thesis by (simp add: chunks_nil)
  next
    case False
    then have "length (drop n xs) < length xs" using less.prems by simp
    from less.hyps[OF this less.prems] False less.prems show ?thesis
      by (simp add: chunks_cons)
  qed
qed

lemma chunks_blocks: "0 < n \<Longrightarrow> c \<in> set (chunks n xs) \<Longrightarrow> c \<noteq> [] \<and> length c \<le> n"
proof (induction "length xs" arbitrary: xs rule: less_induct)
  case less
  show ?case
  proof (cases "xs = []")
    case True
    then show ?thesis using less.prems by (simp add: chunks_nil)
  next
    case False
    then have sh: "length (drop n xs) < length xs" using less.prems by simp
    from less.prems False have "c = take n xs \<or> c \<in> set (chunks n (drop n xs))"
      by (simp add: chunks_cons)
    then show ?thesis
    proof
      assume "c = take n xs"
      then show ?thesis using False less.prems by simp
    next
      assume "c \<in> set (chunks n (drop n xs))"
      from less.hyps[OF sh less.prems(1) this] show ?thesis .
    qed
  qed
qed

lemma read_loop_fold_blocks:
  "read_loop H 0 rest h1 h2 t = fold_blocks H (h1, h2) (chunks 8192 rest)"
proof (induction "length rest" arbitrary: rest h1 h2 t rule: less_induct)
  case less
  consider (empty) "rest = []" | (short) "rest \<noteq> []" "length rest < 8192" | (more) "8192 \<le> length rest"
    by linarith
  then show ?case
  proof cases
    case empty
    then show ?thesis by (simp add: read_loop_nil chunks_nil fold_blocks_def)
  next
    case short
    then have "chunks 8192 rest = [rest]" by (simp add: chunks_cons chunks_nil)
    then show ?thesis using short by (simp add: read_loop_short fold_blocks_def)
  next
    case more
    then have ne: "rest \<noteq> []" by auto
    have sh: "length (drop 8192 rest) < length rest" using more by simp
    have c: "chunks 8192 rest = take 8192 rest # chunks 8192 (drop 8192 rest)"
      using ne by (simp add: chunks_cons)
    show ?thesis
      unfolding c using less.hyps[OF sh] more
      by (simp add: read_loop_more fold_blocks_def)
  qed
qed

lemma hash_bytes_spec:
  "hash_bytes H bytes limit = fingerprint_spec H (if 0 < limit then take limit bytes else bytes)"
proof (cases "0 < limit")
  case True
  then show ?thesis
    using hash_bytes_limit[of limit H bytes]
    by (simp add: hash_bytes_def fingerprint_spec_def read_loop_fold_blocks)
next
  case False
  then show ?thesis
    by (simp add: hash_bytes_def fingerprint_spec_def read_loop_fold_blocks)
qed

lemma chunks_123: "chunks 8192 [1, 2, 3 :: byte] = [[1, 2, 3]]" "chunks 8192 [1, 2 :: byte] = [[1, 2]]"
  by (simp_all add: chunks_cons chunks_nil)

lemma steps_12: "hash1_step 0 (hasher0 [1, 2]) = 2654556029" "hash2_step 0 (hasher0 [1, 2]) = 3728060"
  by (simp_all add: hasher0_def hash1_step_def hash2_step_def)

lemma hex_12: "hex16 2654556029 = ''000000009e394f7d''" "hex16 3728060 = ''000000000038e2bc''"
  by (simp_all add: hex16_def setw_fill_def hex_digit_def hex_of_nat.simps replicate_numeral)

lemma spec_12: "fingerprint_spec hasher0 [1, 2] = ''000000009e394f7d000000000038e2bc''"
  by (simp add: fingerprint_spec_def fold_blocks_def chunks_123 steps_12 hex_12)

section \<open>The files that reach the full hash\<close>

lemma full_hash_calls_mem:
  "p \<in> set (full_hash_calls H fs paths) \<longleftrightarrow>
     (\<exists>ph cands. (ph, cands) \<in> set (partial_groups H fs paths) \<and> 2 \<le> length cands \<and> p \<in> set cands)"
proof
  assume "p \<in> set (full_hash_calls H fs paths)"
  then obtain ph cands where pc: "(ph, cands) \<in> set (partial_groups H fs paths)"
    and p: "p \<in> set (snd (full_step_traced H fs cands))"
    by (auto simp: full_hash_calls_def)
  from p have "2 \<le> length cands \<and> p \<in> set cands"
    by (cases "length cands < 2") (simp_all add: full_step_traced_calls)
  with pc show "\<exists>ph cands. (ph, cands) \<in> set (partial_groups H fs paths) \<and>
      2 \<le> length cands \<and> p \<in> set cands" by blast
next
  assume "\<exists>ph cands. (ph, cands) \<in> set (partial_groups H fs paths) \<and>
      2 \<le> length cands \<and> p \<in> set cands"
  then obtain ph cands where pc: "(ph, cands) \<in> set (partial_groups H fs paths)"
    and len: "2 \<le> length cands" and p: "p \<in> set cands" by blast
  from len p have "p \<in> set (snd (full_step_traced H fs cands))"
    by (simp add: full_step_traced_calls)
  with pc show "p \<in> set (full_hash_calls H fs paths)"
    by (force simp: full_hash_calls_def)
qed

lemma full_hash_log_mem:
  assumes "full_hash_log H fs = Inr log"
  shows "p \<in> set log \<longleftrightarrow>
     partial_hash H fs p \<noteq> [] \<and>
     p \<in> set (partial_class H fs (file_size fs p) (partial_hash H fs p)) \<and>
     2 \<le> length (partial_class H fs (file_size fs p) (partial_hash H fs p))"
proof -
  from assms obtain sg where sg: "group_by_size fs = Inr sg"
    and log: "log = concat (map (\<lambda>(size, paths). full_hash_calls H fs paths) sg)"
    by (auto simp: full_hash_log_def split: sum.splits)
  let ?all = "entry_paths (listing fs)"
  let ?S = "\<lambda>s. filter (\<lambda>q. is_regular_file fs q \<and> file_size fs q = s) ?all"
  have fuse: "filter (\<lambda>q. partial_hash H fs q = ph) (?S s) = partial_class H fs s ph" for s ph
    unfolding partial_class_def by (auto intro: filter_cong)
  show ?thesis
  proof
    assume "p \<in> set log"
    then obtain s ps where sp: "(s, ps) \<in> set sg" and c: "p \<in> set (full_hash_calls H fs ps)"
      by (auto simp: log)
    from sp have ps: "ps = ?S s" using group_by_size_mem[OF sg] by simp
    from c obtain ph cands where pc: "(ph, cands) \<in> set (partial_groups H fs ps)"
      and len: "2 \<le> length cands" and p: "p \<in> set cands"
      unfolding full_hash_calls_mem by blast
    from pc have ph: "ph \<noteq> []"
      and c0: "cands = filter (\<lambda>q. partial_hash H fs q = ph) (?S s)"
      unfolding ps by (simp_all add: partial_groups_def hash_groups_mem)
    have cands: "cands = partial_class H fs s ph" unfolding c0 by (rule fuse)
    from p have "file_size fs p = s" "partial_hash H fs p = ph"
      by (auto simp: cands partial_class_def)
    with ph len p show "partial_hash H fs p \<noteq> [] \<and>
     p \<in> set (partial_class H fs (file_size fs p) (partial_hash H fs p)) \<and>
     2 \<le> length (partial_class H fs (file_size fs p) (partial_hash H fs p))"
      by (simp add: cands)
  next
    let ?s = "file_size fs p" and ?ph = "partial_hash H fs p"
    let ?c = "partial_class H fs ?s ?ph"
    assume a: "?ph \<noteq> [] \<and> p \<in> set ?c \<and> 2 \<le> length ?c"
    have "length ?c \<le> length (?S ?s)"
      unfolding fuse[symmetric] by (rule length_filter_le)
    with a have sp: "(?s, ?S ?s) \<in> set sg" using group_by_size_mem[OF sg] by simp
    from a have "?c \<noteq> []" by auto
    with a have "(?ph, ?c) \<in> set (partial_groups H fs (?S ?s))"
      unfolding partial_groups_def hash_groups_mem fuse by simp
    with a have "p \<in> set (full_hash_calls H fs (?S ?s))"
      unfolding full_hash_calls_mem by blast
    with sp show "p \<in> set log" by (force simp: log)
  qed
qed

lemma dup_class_subset_partial_class:
  "set (dup_class H fs s ph fh) \<subseteq> set (partial_class H fs s ph)"
  "length (dup_class H fs s ph fh) \<le> length (partial_class H fs s ph)"
proof -
  have "dup_class H fs s ph fh = filter (\<lambda>p. full_hash H fs p = fh) (partial_class H fs s ph)"
    unfolding dup_class_def partial_class_def by (auto intro: filter_cong)
  then show "set (dup_class H fs s ph fh) \<subseteq> set (partial_class H fs s ph)"
    "length (dup_class H fs s ph fh) \<le> length (partial_class H fs s ph)"
    by simp_all
qed

lemma fs_A_log: "full_hash_log hasher0 fs_A = Inr [''d/a'', ''b'']"
  by (simp add: full_hash_log_def full_hash_calls_def full_step_traced_def fs_A_def
      group_by_size_def erase_singletons_def partial_groups_def partial_hash_def
      compute_hash_def PARTIAL_READ_SIZE_def is_regular_file_def file_size_def
      plain_file_def absent_def hash_123 hash_124 hash_9)

lemma fs_A_partial_groups:
  "partial_groups hasher0 fs_A [''d/a'', ''b'', ''c'', ''u''] =
     [(''000000009f27dd08000000001d1c0691'', [''d/a'', ''b'']),
      (''000000009f27dd09000000001d1c06b0'', [''c''])]"
  by (simp add: partial_groups_def partial_hash_def compute_hash_def PARTIAL_READ_SIZE_def
      fs_A_def plain_file_def hash_123 hash_124)

section \<open>The claims\<close>

text \<open>
  Claim C1, as the specification states it, fails: in \<open>fs_throw\<close> the regular files \<open>a\<close>
  and \<open>b\<close> hold the same bytes and both can be opened, so both fingerprints are usable;
  the traversal fails at a directory listed after them, and the run ends with that error
  and emits no duplicate group at all.
\<close>

theorem identical_content_counterexample:
  "Entry ''a'' \<in> set (listing fs_throw) \<and> Entry ''b'' \<in> set (listing fs_throw) \<and>
   ''a'' \<noteq> ''b'' \<and>
   is_regular_file fs_throw ''a'' \<and> is_regular_file fs_throw ''b'' \<and>
   readable (node fs_throw ''a'') \<and> readable (node fs_throw ''b'') \<and>
   content (node fs_throw ''a'') = content (node fs_throw ''b'') \<and>
   partial_hash hasher0 fs_throw ''a'' \<noteq> [] \<and> full_hash hasher0 fs_throw ''a'' \<noteq> [] \<and>
   find_duplicates hasher0 fs_throw = Inl FilesystemError \<and>
   main_report hasher0 fs_throw = Inl FilesystemError"
proof -
  have f: "find_duplicates hasher0 fs_throw = Inl FilesystemError"
    by (simp add: find_duplicates_def group_by_size_eq fs_throw_def)
  have r: "readable (node fs_throw ''a'')" by (simp add: fs_throw_def plain_file_def)
  have h: "partial_hash hasher0 fs_throw ''a'' \<noteq> []" "full_hash hasher0 fs_throw ''a'' \<noteq> []"
    using compute_hash_readable[OF r] by (simp_all add: partial_hash_def full_hash_def)
  have m: "main_report hasher0 fs_throw = Inl FilesystemError"
    by (simp add: main_report_def f)
  show ?thesis
    using f m h by (simp add: fs_throw_def is_regular_file_def plain_file_def)
qed

text \<open>
  Claim C1, amended. Two distinct listed regular files with the same bytes, both of which
  can be opened, get the same fingerprint for every byte limit, and, provided that the
  traversal of the directory raises no error, the program returns a result in which one
  duplicate group holds both of them. The fingerprint is a function of the bytes in its
  range: byte sequences that agree on the first \<open>mx\<close> bytes get the same fingerprint with
  the limit \<open>mx\<close>.
\<close>

theorem identical_content_same_group:
  assumes "IterThrows \<notin> set (listing fs)"
    and "Entry a \<in> set (listing fs)" "Entry b \<in> set (listing fs)" "a \<noteq> b"
    and "is_regular_file fs a" "is_regular_file fs b"
    and "readable (node fs a)" "readable (node fs b)"
    and "content (node fs a) = content (node fs b)"
  shows "(\<forall>mx. compute_hash H fs a mx = compute_hash H fs b mx) \<and>
         (\<exists>out. find_duplicates H fs = Inr out \<and> (\<exists>g\<in>set out. a \<in> set g \<and> b \<in> set g)) \<and>
         (\<forall>mx bs bs'. 0 < mx \<and> take mx bs = take mx bs' \<longrightarrow>
            hash_bytes H bs mx = hash_bytes H bs' mx)"
proof -
  have same: "compute_hash H fs a mx = compute_hash H fs b mx" for mx
    using assms(7-9) by (simp add: compute_hash_def)
  have range: "hash_bytes H bs mx = hash_bytes H bs' mx"
    if "0 < mx \<and> take mx bs = take mx bs'" for mx bs bs'
    using that hash_bytes_limit[of mx H bs] hash_bytes_limit[of mx H bs'] by simp
  obtain out where out: "find_duplicates H fs = Inr out"
    using find_duplicates_total[OF assms(1)] by blast
  define g where "g = dup_class H fs (file_size fs a) (partial_hash H fs a) (full_hash H fs a)"
  have a: "a \<in> set g"
    using assms(2,5) by (simp add: g_def dup_class_def entry_paths_mem)
  have b: "b \<in> set g"
    using assms(3,6,9) same
    by (simp add: g_def dup_class_def entry_paths_mem file_size_def partial_hash_def full_hash_def)
  have ne: "partial_hash H fs a \<noteq> []" "full_hash H fs a \<noteq> []"
    using compute_hash_readable[OF assms(7)] by (simp_all add: partial_hash_def full_hash_def)
  have "2 \<le> length g" using two_members[OF a b assms(4)] .
  then have "g \<in> set out"
    unfolding find_duplicates_mem[OF out] using ne g_def by blast
  with a b out same range show ?thesis by blast
qed

text \<open>
  The claim at the file system \<open>fs_A\<close>: \<open>d/a\<close> and \<open>b\<close> hold the same three bytes; and at
  two byte sequences that agree on their first two bytes, with the limit 2.
\<close>

theorem identical_content_same_group_witness:
  "IterThrows \<notin> set (listing fs_A) \<and>
   content (node fs_A ''d/a'') = content (node fs_A ''b'') \<and>
   compute_hash hasher0 fs_A ''d/a'' 4096 = compute_hash hasher0 fs_A ''b'' 4096 \<and>
   find_duplicates hasher0 fs_A = Inr [[''d/a'', ''b'']] \<and>
   (\<exists>g\<in>set [[''d/a'', ''b'']]. ''d/a'' \<in> set g \<and> ''b'' \<in> set g) \<and>
   take 2 [1, 2, 3 :: byte] = take 2 [1, 2, 4] \<and>
   hash_bytes hasher0 [1, 2, 3] 2 = hash_bytes hasher0 [1, 2, 4] 2"
proof -
  have h: "IterThrows \<notin> set (listing fs_A)"
    "Entry ''d/a'' \<in> set (listing fs_A)" "Entry ''b'' \<in> set (listing fs_A)" "''d/a'' \<noteq> ''b''"
    "is_regular_file fs_A ''d/a''" "is_regular_file fs_A ''b''"
    "readable (node fs_A ''d/a'')" "readable (node fs_A ''b'')"
    "content (node fs_A ''d/a'') = content (node fs_A ''b'')"
    by (simp_all add: fs_A_def is_regular_file_def plain_file_def)
  note c1 = identical_content_same_group[OF h, of hasher0]
  have t: "0 < (2::nat) \<and> take 2 [1, 2, 3 :: byte] = take 2 [1, 2, 4]" by simp
  from c1 have "0 < (2::nat) \<and> take 2 [1, 2, 3 :: byte] = take 2 [1, 2, 4] \<longrightarrow>
      hash_bytes hasher0 [1, 2, 3] 2 = hash_bytes hasher0 [1, 2, 4] 2" by blast
  with t have r: "hash_bytes hasher0 [1, 2, 3] 2 = hash_bytes hasher0 [1, 2, 4] 2" by blast
  show ?thesis
    using c1 h(1,9) r by (simp add: fs_A_duplicates)
qed

text \<open>
  Claim C2. No group of fewer than two members passes a phase. Every size group returned
  by \<open>group_by_size\<close> has at least two members. A partial-fingerprint group of fewer than
  two members is dropped before the full hash: the body of step B pushes no group and
  passes none of its paths to \<open>full_hash\<close>, while a group of at least two passes all of
  them; so the paths that step B reads in full are exactly the members of the
  partial-fingerprint groups of at least two members, and over the whole run a path is read
  in full exactly when its partial fingerprint is usable and at least two listed regular
  files have its size and its partial fingerprint. Every emitted duplicate group has at
  least two members, all of them among the paths read in full.
\<close>

theorem singleton_pruning:
  "(group_by_size fs = Inr size_groups \<longrightarrow> (\<forall>(s, ps)\<in>set size_groups. 2 \<le> length ps)) \<and>
   (length candidates < 2 \<longrightarrow> full_step_traced H fs candidates = ([], [])) \<and>
   (2 \<le> length candidates \<longrightarrow> snd (full_step_traced H fs candidates) = candidates) \<and>
   (p \<in> set (full_hash_calls H fs paths) \<longleftrightarrow>
      (\<exists>ph cands. (ph, cands) \<in> set (partial_groups H fs paths) \<and>
         2 \<le> length cands \<and> p \<in> set cands)) \<and>
   (full_hash_log H fs = Inr log \<longrightarrow>
      (p \<in> set log \<longleftrightarrow>
         partial_hash H fs p \<noteq> [] \<and>
         p \<in> set (partial_class H fs (file_size fs p) (partial_hash H fs p)) \<and>
         2 \<le> length (partial_class H fs (file_size fs p) (partial_hash H fs p)))) \<and>
   (find_duplicates H fs = Inr out \<longrightarrow>
      (\<forall>g\<in>set out. 2 \<le> length g) \<and>
      (\<exists>log. full_hash_log H fs = Inr log \<and> (\<forall>g\<in>set out. set g \<subseteq> set log)))"
proof -
  have 1: "group_by_size fs = Inr size_groups \<Longrightarrow> \<forall>(s, ps)\<in>set size_groups. 2 \<le> length ps"
    by (auto simp: group_by_size_mem)
  have 2: "length candidates < 2 \<Longrightarrow> full_step_traced H fs candidates = ([], [])"
    by (simp add: full_step_traced_def)
  have 3: "2 \<le> length candidates \<Longrightarrow> snd (full_step_traced H fs candidates) = candidates"
    by (simp add: full_step_traced_def)
  have 5: "(\<forall>g\<in>set out. 2 \<le> length g) \<and>
      (\<exists>log. full_hash_log H fs = Inr log \<and> (\<forall>g\<in>set out. set g \<subseteq> set log))"
    if fd: "find_duplicates H fs = Inr out"
  proof -
    have a: "\<forall>g\<in>set out. 2 \<le> length g" using fd by (auto simp: find_duplicates_mem)
    from fd obtain log where log: "full_hash_log H fs = Inr log"
      by (auto simp: find_duplicates_def full_hash_log_def split: sum.splits)
    have "set g \<subseteq> set log" if g: "g \<in> set out" for g
    proof
      fix q assume q: "q \<in> set g"
      from g obtain s ph fh where ph: "ph \<noteq> []" and gd: "g = dup_class H fs s ph fh"
        and len: "2 \<le> length g"
        unfolding find_duplicates_mem[OF fd] by blast
      from q have qs: "file_size fs q = s" "partial_hash H fs q = ph"
        by (auto simp: gd dup_class_def)
      have "q \<in> set (partial_class H fs s ph)"
        using q dup_class_subset_partial_class(1)[of H fs s ph fh] by (auto simp: gd)
      moreover have "2 \<le> length (partial_class H fs s ph)"
        using len dup_class_subset_partial_class(2)[of H fs s ph fh] by (simp add: gd)
      ultimately show "q \<in> set log"
        unfolding full_hash_log_mem[OF log] using ph qs by simp
    qed
    with a log show ?thesis by blast
  qed
  show ?thesis
    using 1 2 3 5 full_hash_calls_mem[of p H fs paths] full_hash_log_mem[of H fs log p]
    by blast
qed

text \<open>
  The claim at \<open>fs_A\<close>: the one size group has four members; of its two partial groups
  the one of \<open>c\<close> alone is dropped, and only \<open>d/a\<close> and \<open>b\<close> are read in full; the emitted
  group has two members.
\<close>

theorem singleton_pruning_witness:
  "group_by_size fs_A = Inr [(3, [''d/a'', ''b'', ''c'', ''u''])] \<and>
   (2::nat) \<le> length [''d/a'', ''b'', ''c'', ''u''] \<and>
   partial_groups hasher0 fs_A [''d/a'', ''b'', ''c'', ''u''] =
     [(''000000009f27dd08000000001d1c0691'', [''d/a'', ''b'']),
      (''000000009f27dd09000000001d1c06b0'', [''c''])] \<and>
   full_step_traced hasher0 fs_A [''c''] = ([], []) \<and>
   snd (full_step_traced hasher0 fs_A [''d/a'', ''b'']) = [''d/a'', ''b''] \<and>
   full_hash_log hasher0 fs_A = Inr [''d/a'', ''b''] \<and>
   ''c'' \<notin> set (full_hash_calls hasher0 fs_A [''d/a'', ''b'', ''c'', ''u'']) \<and>
   ''b'' \<in> set (full_hash_calls hasher0 fs_A [''d/a'', ''b'', ''c'', ''u'']) \<and>
   find_duplicates hasher0 fs_A = Inr [[''d/a'', ''b'']] \<and>
   (2::nat) \<le> length [''d/a'', ''b'']"
proof -
  note c = singleton_pruning[of fs_A "[(3, [''d/a'', ''b'', ''c'', ''u''])]" "[''c'']" hasher0
        "''c''" "[''d/a'', ''b'', ''c'', ''u'']" "[''d/a'', ''b'']" "[[''d/a'', ''b'']]"]
  note b = singleton_pruning[of fs_A "[(3, [''d/a'', ''b'', ''c'', ''u''])]" "[''d/a'', ''b'']" hasher0
        "''b''" "[''d/a'', ''b'', ''c'', ''u'']" "[''d/a'', ''b'']" "[[''d/a'', ''b'']]"]
  have 1: "full_step_traced hasher0 fs_A [''c''] = ([], [])"
    using c[THEN conjunct2, THEN conjunct1] by simp
  have 2: "snd (full_step_traced hasher0 fs_A [''d/a'', ''b'']) = [''d/a'', ''b'']"
    using b[THEN conjunct2, THEN conjunct2, THEN conjunct1] by simp
  have 3: "''c'' \<notin> set (full_hash_calls hasher0 fs_A [''d/a'', ''b'', ''c'', ''u''])"
    unfolding c[THEN conjunct2, THEN conjunct2, THEN conjunct2, THEN conjunct1]
    by (auto simp: fs_A_partial_groups)
  have 4: "''b'' \<in> set (full_hash_calls hasher0 fs_A [''d/a'', ''b'', ''c'', ''u''])"
    unfolding b[THEN conjunct2, THEN conjunct2, THEN conjunct2, THEN conjunct1]
    by (intro exI[of _ "''000000009f27dd08000000001d1c0691''"] exI[of _ "[''d/a'', ''b'']"])
       (simp add: fs_A_partial_groups)
  show ?thesis
    using 1 2 3 4 by (simp add: fs_A_size_groups fs_A_duplicates fs_A_log fs_A_partial_groups)
qed

text \<open>
  Claim C3. Every emitted duplicate group lies inside one size group returned by
  \<open>group_by_size\<close>, and all its members have that group's size: any two members have the
  same number of bytes.
\<close>

theorem size_invariant:
  assumes "find_duplicates H fs = Inr out" "g \<in> set out"
  shows "\<exists>size_groups s ps. group_by_size fs = Inr size_groups \<and> (s, ps) \<in> set size_groups \<and>
           set g \<subseteq> set ps \<and> (\<forall>p\<in>set g. file_size fs p = s) \<and>
           (\<forall>p\<in>set g. \<forall>q\<in>set g. length (content (node fs p)) = length (content (node fs q)))"
proof -
  from assms(1) obtain sg where sg: "group_by_size fs = Inr sg"
    by (auto simp: find_duplicates_def split: sum.splits)
  from assms obtain s ph fh where g: "g = dup_class H fs s ph fh" and len: "2 \<le> length g"
    unfolding find_duplicates_mem[OF assms(1)] by blast
  define ps where "ps = filter (\<lambda>p. is_regular_file fs p \<and> file_size fs p = s) (entry_paths (listing fs))"
  have sub: "set g \<subseteq> set ps" by (auto simp: g dup_class_def ps_def)
  have sz: "\<forall>p\<in>set g. file_size fs p = s" by (auto simp: g dup_class_def)
  have "length g \<le> length ps"
    unfolding g dup_class_def ps_def
    using length_filter_conj_le[of "\<lambda>p. is_regular_file fs p \<and> file_size fs p = s"
        "\<lambda>p. partial_hash H fs p = ph \<and> full_hash H fs p = fh" "entry_paths (listing fs)"]
    by (simp add: conj_assoc)
  with len have "(s, ps) \<in> set sg" unfolding group_by_size_mem[OF sg] ps_def by simp
  with sg sub sz show ?thesis by (fastforce simp: file_size_def)
qed

text \<open>
  The claim at \<open>fs_A\<close>: both members of the emitted group have three bytes.
\<close>

theorem size_invariant_witness:
  "find_duplicates hasher0 fs_A = Inr [[''d/a'', ''b'']] \<and>
   group_by_size fs_A = Inr [(3, [''d/a'', ''b'', ''c'', ''u''])] \<and>
   file_size fs_A ''d/a'' = 3 \<and> file_size fs_A ''b'' = 3"
proof -
  have "[''d/a'', ''b''] \<in> set [[''d/a'', ''b'']]" by simp
  from size_invariant[OF fs_A_duplicates this] show ?thesis
    by (simp add: fs_A_size_groups fs_A_duplicates)
qed

text \<open>
  Claim C4. When \<open>find_duplicates\<close> returns, the report is produced, with one line for
  each group; for a group of \<open>n\<close> files, each of size \<open>s\<close>, the line carries the count
  \<open>n\<close>, the size \<open>s\<close> and the wasted space \<open>s * (n - 1)\<close>, computed in \<^verbatim>\<open>uintmax_t\<close>
  (modulo \<open>2 ^ 64\<close>), which is the natural number \<open>s * (n - 1)\<close> whenever that is below
  \<open>2 ^ 64\<close>; and the total is the sum of the wasted values of the lines, in \<^verbatim>\<open>uintmax_t\<close>
  and, when the sum of the natural numbers is below \<open>2 ^ 64\<close>, as natural numbers.
\<close>

theorem wasted_space_arithmetic:
  assumes "find_duplicates H fs = Inr dups"
  shows "\<exists>lns total. main_report H fs = Inr (lns, total) \<and> length lns = length dups \<and>
     (\<forall>i<length dups. \<forall>p\<in>set (dups ! i).
         count (lns ! i) = of_nat (length (dups ! i)) \<and>
         each_size (lns ! i) = of_nat (file_size fs p) \<and>
         wasted (lns ! i) = of_nat (file_size fs p) * (of_nat (length (dups ! i)) - 1) \<and>
         (file_size fs p * (length (dups ! i) - 1) < 2 ^ 64 \<longrightarrow>
            unat (wasted (lns ! i)) = file_size fs p * (length (dups ! i) - 1))) \<and>
     total = sum_list (map wasted lns) \<and>
     (sum_list (map unat (map wasted lns)) < 2 ^ 64 \<longrightarrow>
        unat total = sum_list (map unat (map wasted lns)))"
proof -
  have ok: "\<forall>g\<in>set dups. g \<noteq> [] \<and> is_regular_file fs (hd g)"
  proof
    fix g assume g: "g \<in> set dups"
    then have "2 \<le> length g" using find_duplicates_mem[OF assms] by blast
    then have ne: "g \<noteq> []" by auto
    then have "hd g \<in> set g" by simp
    from find_duplicates_members[OF assms g this] ne
    show "g \<noteq> [] \<and> is_regular_file fs (hd g)" by simp
  qed
  from report_loop_defined[OF ok, of 0] obtain lns total
    where rl: "report_loop fs dups 0 = Inr (lns, total)" by blast
  have mr: "main_report H fs = Inr (lns, total)" by (simp add: main_report_def assms rl)
  have len: "length lns = length dups" using report_loop_length[OF rl] .
  have tot: "total = sum_list (map wasted lns)" using report_loop_total[OF rl] by simp
  have line: "count (lns ! i) = of_nat (length (dups ! i)) \<and>
         each_size (lns ! i) = of_nat (file_size fs p) \<and>
         wasted (lns ! i) = of_nat (file_size fs p) * (of_nat (length (dups ! i)) - 1) \<and>
         (file_size fs p * (length (dups ! i) - 1) < 2 ^ 64 \<longrightarrow>
            unat (wasted (lns ! i)) = file_size fs p * (length (dups ! i) - 1))"
    if i: "i < length dups" and p: "p \<in> set (dups ! i)" for i p
  proof -
    let ?g = "dups ! i"
    have g: "?g \<in> set dups" using i by simp
    with ok have ne: "?g \<noteq> []" and reg: "is_regular_file fs (hd ?g)" by auto
    have hd: "hd ?g \<in> set ?g" using ne by simp
    have sz: "file_size fs (hd ?g) = file_size fs p"
      using find_duplicates_same_size[OF assms g hd p] .
    have gs: "group_stats fs ?g = Inr (lns ! i)" using report_loop_nth[OF rl i] .
    have st: "lns ! i = \<lparr>count = of_nat (length ?g), each_size = of_nat (file_size fs p),
                wasted = of_nat (file_size fs p) * (of_nat (length ?g) - 1)\<rparr>"
      using gs ne reg sz by (cases ?g) (auto simp: group_stats_def)
    have pos: "0 < length ?g" using ne by simp
    show ?thesis
      unfolding st using unat_of_nat_mult_pred[OF _ pos, of "file_size fs p"] by simp
  qed
  have nat_tot: "sum_list (map unat (map wasted lns)) < 2 ^ 64 \<Longrightarrow>
        unat total = sum_list (map unat (map wasted lns))"
    unfolding tot by (rule unat_sum_list)
  show ?thesis using mr len tot line nat_tot by blast
qed

text \<open>
  The claim at \<open>fs_A\<close>: one group of two files of three bytes, wasted space 3, total 3.
\<close>

theorem wasted_space_arithmetic_witness:
  "find_duplicates hasher0 fs_A = Inr [[''d/a'', ''b'']] \<and>
   main_report hasher0 fs_A = Inr ([\<lparr>count = 2, each_size = 3, wasted = 3\<rparr>], 3) \<and>
   file_size fs_A ''b'' = 3 \<and> length [''d/a'', ''b''] = 2 \<and>
   (3::nat) * (2 - 1) < 2 ^ 64 \<and>
   unat (wasted \<lparr>count = 2, each_size = 3, wasted = 3\<rparr>) = 3 * (2 - 1) \<and>
   (3::u64) = sum_list (map wasted [\<lparr>count = 2, each_size = 3, wasted = 3\<rparr>])"
proof -
  from wasted_space_arithmetic[OF fs_A_duplicates] obtain lns total
    where mr: "main_report hasher0 fs_A = Inr (lns, total)"
      and ln: "\<forall>i<length [[''d/a'', ''b'']]. \<forall>p\<in>set ([[''d/a'', ''b'']] ! i).
         file_size fs_A p * (length ([[''d/a'', ''b'']] ! i) - 1) < 2 ^ 64 \<longrightarrow>
            unat (wasted (lns ! i)) = file_size fs_A p * (length ([[''d/a'', ''b'']] ! i) - 1)"
      and tot: "total = sum_list (map wasted lns)"
    by blast
  from mr have lns: "lns = [\<lparr>count = 2, each_size = 3, wasted = 3\<rparr>]" and total: "total = 3"
    by (simp_all add: fs_A_report)
  have sz: "file_size fs_A ''b'' = 3" by (simp add: file_size_def fs_A_def plain_file_def)
  from ln[rule_format, of 0 "''b''"] have "unat (wasted (lns ! 0)) = 3 * (2 - 1)"
    by (simp add: sz)
  then show ?thesis using tot by (simp add: lns total sz fs_A_report fs_A_duplicates)
qed

text \<open>
  Claim C5. The fingerprint that the read loop computes is the fold, over the blocks of
  8192 bytes, of the first \<open>limit\<close> bytes of the content when the limit is positive, and
  of the whole content when the limit is zero or the content is no longer than the limit;
  the blocks, put together, are exactly those bytes. So \<open>compute_hash\<close> of a file that
  opens is that fold over the prefix or over the whole content; the partial step calls it
  with the limit 4096 and the full step with no limit.
\<close>

theorem fingerprint_byte_range:
  "hash_bytes H bytes limit = fingerprint_spec H (if 0 < limit then take limit bytes else bytes) \<and>
   (limit = 0 \<or> length bytes \<le> limit \<longrightarrow> hash_bytes H bytes limit = fingerprint_spec H bytes) \<and>
   (0 < limit \<longrightarrow> hash_bytes H bytes limit = hash_bytes H (take limit bytes) 0) \<and>
   (readable (node fs p) \<longrightarrow>
      compute_hash H fs p limit =
        fingerprint_spec H
          (if 0 < limit then take limit (content (node fs p)) else content (node fs p))) \<and>
   partial_hash H fs p = compute_hash H fs p 4096 \<and>
   full_hash H fs p = compute_hash H fs p 0 \<and>
   concat (chunks 8192 bytes) = bytes \<and>
   (\<forall>block\<in>set (chunks 8192 bytes). block \<noteq> [] \<and> length block \<le> 8192)"
proof -
  have a: "hash_bytes H bs limit = fingerprint_spec H (if 0 < limit then take limit bs else bs)" for bs
    by (rule hash_bytes_spec)
  have b: "limit = 0 \<or> length bytes \<le> limit \<Longrightarrow> hash_bytes H bytes limit = fingerprint_spec H bytes"
    using a[of bytes] by auto
  have c: "0 < limit \<Longrightarrow> hash_bytes H bytes limit = hash_bytes H (take limit bytes) 0"
    by (rule hash_bytes_limit)
  have d: "concat (chunks 8192 bytes) = bytes" by (rule concat_chunks) simp
  have e: "\<forall>block\<in>set (chunks 8192 bytes). block \<noteq> [] \<and> length block \<le> 8192"
    using chunks_blocks[of 8192 _ bytes] by simp
  have f: "readable (node fs p) \<Longrightarrow> compute_hash H fs p limit =
        fingerprint_spec H
          (if 0 < limit then take limit (content (node fs p)) else content (node fs p))"
    using a[of "content (node fs p)"] by (simp add: compute_hash_def)
  have g: "partial_hash H fs p = compute_hash H fs p 4096" "full_hash H fs p = compute_hash H fs p 0"
    by (simp_all add: partial_hash_def full_hash_def PARTIAL_READ_SIZE_def)
  show ?thesis using a[of bytes] b c d e f g by blast
qed

text \<open>
  The claim at the limits 2, 4096 and 0 on the three bytes of \<open>b\<close> in \<open>fs_A\<close>: with the
  limit 2 the fingerprint is that of the first two bytes, and differs from that of all
  three.
\<close>

theorem fingerprint_byte_range_witness:
  "hash_bytes hasher0 [1, 2, 3] 2 = ''000000009e394f7d000000000038e2bc'' \<and>
   hash_bytes hasher0 [1, 2, 3] 2 = hash_bytes hasher0 [1, 2] 0 \<and>
   hash_bytes hasher0 [1, 2, 3] 4096 = fingerprint_spec hasher0 [1, 2, 3] \<and>
   hash_bytes hasher0 [1, 2, 3] 0 = fingerprint_spec hasher0 [1, 2, 3] \<and>
   fingerprint_spec hasher0 [1, 2, 3] = ''000000009f27dd08000000001d1c0691'' \<and>
   readable (node fs_A ''b'') \<and>
   compute_hash hasher0 fs_A ''b'' 2 = ''000000009e394f7d000000000038e2bc'' \<and>
   compute_hash hasher0 fs_A ''b'' 0 = ''000000009f27dd08000000001d1c0691'' \<and>
   chunks 8192 [1, 2, 3 :: byte] = [[1, 2, 3]]"
proof -
  note w2 = fingerprint_byte_range[of hasher0 "[1, 2, 3]" 2 fs_A "''b''"]
  note w4096 = fingerprint_byte_range[of hasher0 "[1, 2, 3]" 4096 fs_A "''b''"]
  note w0 = fingerprint_byte_range[of hasher0 "[1, 2, 3]" 0 fs_A "''b''"]
  have r: "readable (node fs_A ''b'')" and c: "content (node fs_A ''b'') = [1, 2, 3]"
    by (simp_all add: fs_A_def plain_file_def)
  have h2: "hash_bytes hasher0 [1, 2, 3] 2 = ''000000009e394f7d000000000038e2bc''"
    using w2[THEN conjunct1] by (simp add: spec_12)
  have h20: "hash_bytes hasher0 [1, 2, 3] 2 = hash_bytes hasher0 [1, 2] 0"
    using w2[THEN conjunct2, THEN conjunct2, THEN conjunct1] by simp
  have h4096: "hash_bytes hasher0 [1, 2, 3] 4096 = fingerprint_spec hasher0 [1, 2, 3]"
    using w4096[THEN conjunct2, THEN conjunct1] by simp
  have h0: "hash_bytes hasher0 [1, 2, 3] 0 = fingerprint_spec hasher0 [1, 2, 3]"
    using w0[THEN conjunct1] by simp
  have s3: "fingerprint_spec hasher0 [1, 2, 3] = ''000000009f27dd08000000001d1c0691''"
    unfolding h0[symmetric] by (rule hash_123) simp
  have c2: "compute_hash hasher0 fs_A ''b'' 2 = ''000000009e394f7d000000000038e2bc''"
    using w2[THEN conjunct2, THEN conjunct2, THEN conjunct2, THEN conjunct1] r
    by (simp add: c spec_12)
  have c0: "compute_hash hasher0 fs_A ''b'' 0 = ''000000009f27dd08000000001d1c0691''"
    using w0[THEN conjunct2, THEN conjunct2, THEN conjunct2, THEN conjunct1] r
    by (simp add: c s3)
  show ?thesis
    using h2 h20 c2 c0 h4096 h0 s3 r chunks_123(1) by blast
qed

text \<open>
  Claim C6. Reading a file of zero bytes leaves both accumulators at zero, so its
  fingerprint is the string of 32 zeros, which is not the empty sentinel; a directory that
  holds exactly two such files yields exactly one duplicate group with both, reported with
  wasted space 0 and total 0.
\<close>

theorem zero_byte_files:
  assumes "listing fs = [Entry a, Entry b]"
    and "is_regular_file fs a" "is_regular_file fs b"
    and "readable (node fs a)" "readable (node fs b)"
    and "content (node fs a) = []" "content (node fs b) = []"
  shows "read_loop H mx [] 0 0 0 = (0, 0) \<and>
         compute_hash H fs a mx = replicate 32 (CHR ''0'') \<and>
         compute_hash H fs b mx = replicate 32 (CHR ''0'') \<and>
         compute_hash H fs a mx \<noteq> [] \<and>
         find_duplicates H fs = Inr [[a, b]] \<and>
         main_report H fs = Inr ([\<lparr>count = 2, each_size = 0, wasted = 0\<rparr>], 0)"
proof -
  have h: "compute_hash H fs a k = replicate 32 (CHR ''0'')"
          "compute_hash H fs b k = replicate 32 (CHR ''0'')" for k
    using assms by (simp_all add: compute_hash_def hash_bytes_nil)
  have sg: "group_by_size fs = Inr [(0, [a, b])]"
    using assms by (simp add: group_by_size_def erase_singletons_def file_size_def)
  have fd: "find_duplicates H fs = Inr [[a, b]]"
    using h by (simp add: find_duplicates_def sg refine_size_group_def partial_groups_def
        full_step_eq collect_dupes_def partial_hash_def full_hash_def)
  have mr: "main_report H fs = Inr ([\<lparr>count = 2, each_size = 0, wasted = 0\<rparr>], 0)"
    using assms by (simp add: main_report_def fd group_stats_def file_size_def)
  show ?thesis using h fd mr by (simp add: read_loop_nil)
qed

text \<open>
  The claim at \<open>fs_zero\<close>, with the two empty files \<open>x\<close> and \<open>y\<close>.
\<close>

theorem zero_byte_files_witness:
  "listing fs_zero = [Entry ''x'', Entry ''y''] \<and>
   content (node fs_zero ''x'') = [] \<and> content (node fs_zero ''y'') = [] \<and>
   compute_hash hasher0 fs_zero ''x'' 4096 = ''00000000000000000000000000000000'' \<and>
   find_duplicates hasher0 fs_zero = Inr [[''x'', ''y'']] \<and>
   main_report hasher0 fs_zero = Inr ([\<lparr>count = 2, each_size = 0, wasted = 0\<rparr>], 0)"
proof -
  have l: "listing fs_zero = [Entry ''x'', Entry ''y'']" by (simp add: fs_zero_def)
  have r: "is_regular_file fs_zero ''x''" "is_regular_file fs_zero ''y''"
    "readable (node fs_zero ''x'')" "readable (node fs_zero ''y'')"
    "content (node fs_zero ''x'') = []" "content (node fs_zero ''y'') = []"
    by (simp_all add: fs_zero_def is_regular_file_def plain_file_def)
  show ?thesis
    using zero_byte_files[OF l r, of hasher0 4096] l r
    by (simp add: replicate_numeral)
qed

text \<open>
  Claim C7. For a file that cannot be opened, \<open>compute_hash\<close> returns the empty string,
  at the partial and at the full step; the file is a member of no partial-fingerprint group,
  of no group of the full step and of no emitted duplicate group; and the run on the listing
  without that file emits the same set of duplicate groups, so its presence neither forms
  nor blocks a group.
\<close>

theorem unreadable_file_excluded:
  assumes "\<not> readable (node fs p)"
  shows "compute_hash H fs p mx = [] \<and>
         partial_hash H fs p = [] \<and> full_hash H fs p = [] \<and>
         (\<forall>(ph, cands)\<in>set (partial_groups H fs paths). p \<notin> set cands) \<and>
         (\<forall>g\<in>set (full_step H fs candidates). p \<notin> set g) \<and>
         (find_duplicates H fs = Inr out \<longrightarrow>
            (\<forall>g\<in>set out. p \<notin> set g) \<and>
            (\<exists>out'. find_duplicates H (without_entry p fs) = Inr out' \<and> set out' = set out))"
proof -
  have h: "compute_hash H fs p k = []" for k
    using assms by (simp add: compute_hash_def)
  have ph: "partial_hash H fs p = []" and fh: "full_hash H fs p = []"
    using h by (simp_all add: partial_hash_def full_hash_def)
  have pg: "\<forall>(k, cands)\<in>set (partial_groups H fs paths). p \<notin> set cands"
    using ph by (auto simp: partial_groups_def hash_groups_mem)
  have fg: "\<forall>g\<in>set (full_step H fs candidates). p \<notin> set g"
    using fh by (auto simp: full_step_mem)
  have out: "(\<forall>g\<in>set out. p \<notin> set g) \<and>
            (\<exists>out'. find_duplicates H (without_entry p fs) = Inr out' \<and> set out' = set out)"
    if fd: "find_duplicates H fs = Inr out"
  proof -
    have 1: "\<forall>g\<in>set out. p \<notin> set g"
      using find_duplicates_members[OF fd] assms by blast
    have "IterThrows \<notin> set (listing fs)"
      using fd by (auto simp: find_duplicates_def group_by_size_eq split: if_splits)
    then have "IterThrows \<notin> set (listing (without_entry p fs))"
      by (simp add: without_entry_simps)
    from find_duplicates_total[OF this] obtain out'
      where fd': "find_duplicates H (without_entry p fs) = Inr out'" by blast
    have "g \<in> set out' \<longleftrightarrow> g \<in> set out" for g
      unfolding find_duplicates_mem[OF fd] find_duplicates_mem[OF fd']
      using dup_class_without_entry[OF assms] by metis
    then have "set out' = set out" by blast
    with 1 fd' show ?thesis by blast
  qed
  show ?thesis using h ph fh pg fg out by blast
qed

text \<open>
  The claim at \<open>fs_A\<close>: \<open>u\<close> has the bytes of \<open>d/a\<close> and \<open>b\<close> and cannot be opened.
\<close>

theorem unreadable_file_excluded_witness:
  "\<not> readable (node fs_A ''u'') \<and>
   compute_hash hasher0 fs_A ''u'' 4096 = [] \<and> compute_hash hasher0 fs_A ''u'' 0 = [] \<and>
   find_duplicates hasher0 fs_A = Inr [[''d/a'', ''b'']] \<and>
   ''u'' \<notin> set [''d/a'', ''b''] \<and>
   find_duplicates hasher0 (without_entry ''u'' fs_A) = Inr [[''d/a'', ''b'']]"
proof -
  have u: "\<not> readable (node fs_A ''u'')" by (simp add: fs_A_def)
  show ?thesis
    using unreadable_file_excluded[OF u, of hasher0 4096 "[]" "[]" "[[''d/a'', ''b'']]"]
      unreadable_file_excluded[OF u, of hasher0 0 "[]" "[]" "[[''d/a'', ''b'']]"] u
    by (simp add: fs_A_duplicates fs_A_without_u)
qed

text \<open>
  Claim C8, as the specification states it, fails: in \<open>fs_throw\<close> the iterator fails
  after the entry of a directory it may not open. Skipping would give the size group of
  \<open>a\<close> and \<open>b\<close> and their duplicate group; the program ends with the error at every
  level instead.
\<close>

theorem traversal_error_counterexample:
  "IterThrows \<in> set (listing fs_throw) \<and>
   group_by_size fs_throw = Inl FilesystemError \<and>
   find_duplicates hasher0 fs_throw = Inl FilesystemError \<and>
   main_report hasher0 fs_throw = Inl FilesystemError \<and>
   group_by_size (without_failures fs_throw) = Inr [(3, [''a'', ''b''])] \<and>
   find_duplicates hasher0 (without_failures fs_throw) = Inr [[''a'', ''b'']] \<and>
   group_by_size fs_throw \<noteq> group_by_size (without_failures fs_throw)"
proof -
  have t: "IterThrows \<in> set (listing fs_throw)" by (simp add: fs_throw_def)
  then have g: "group_by_size fs_throw = Inl FilesystemError" by (simp add: group_by_size_eq)
  then have f: "find_duplicates hasher0 fs_throw = Inl FilesystemError"
    by (simp add: find_duplicates_def)
  then have m: "main_report hasher0 fs_throw = Inl FilesystemError"
    by (simp add: main_report_def)
  show ?thesis using t g f m by (simp add: fs_throw_skipped)
qed

text \<open>
  Claim C8, amended. An entry that is not a regular file (a directory, a special file, a
  dangling symbolic link) is skipped and the scan goes on with the remaining entries: the
  result is that of the listing without it. A failure of the directory iterator is not
  caught: \<open>group_by_size\<close>, \<open>find_duplicates\<close> and the run end with that error. Without
  such a failure both functions return a result.
\<close>

theorem traversal_error_propagates:
  "(\<not> is_regular_file fs p \<longrightarrow>
      scan_entries fs (Entry p # es) m = scan_entries fs es m \<and>
      group_by_size (without_entry p fs) = group_by_size fs) \<and>
   (IterThrows \<in> set (listing fs) \<longrightarrow>
      group_by_size fs = Inl FilesystemError \<and> find_duplicates H fs = Inl FilesystemError \<and>
      main_report H fs = Inl FilesystemError) \<and>
   (IterThrows \<notin> set (listing fs) \<longrightarrow>
      (\<exists>size_groups. group_by_size fs = Inr size_groups) \<and>
      (\<exists>out. find_duplicates H fs = Inr out))"
proof -
  have 1: "group_by_size fs = Inl FilesystemError \<and> find_duplicates H fs = Inl FilesystemError \<and>
      main_report H fs = Inl FilesystemError" if "IterThrows \<in> set (listing fs)"
    using that by (simp add: group_by_size_eq find_duplicates_def main_report_def)
  have 2: "IterThrows \<notin> set (listing fs) \<Longrightarrow> \<exists>size_groups. group_by_size fs = Inr size_groups"
    by (simp add: group_by_size_eq)
  show ?thesis
    using 1 2 find_duplicates_total[of fs H] group_by_size_without_entry[of fs p]
    by simp
qed

text \<open>
  The amended claim at the directory \<open>d\<close> of \<open>fs_A\<close> and at the failure in \<open>fs_throw\<close>.
\<close>

theorem traversal_error_propagates_witness:
  "\<not> is_regular_file fs_A ''d'' \<and>
   group_by_size (without_entry ''d'' fs_A) = Inr [(3, [''d/a'', ''b'', ''c'', ''u''])] \<and>
   IterThrows \<in> set (listing fs_throw) \<and>
   group_by_size fs_throw = Inl FilesystemError \<and>
   main_report hasher0 fs_throw = Inl FilesystemError \<and>
   IterThrows \<notin> set (listing fs_A) \<and>
   find_duplicates hasher0 fs_A = Inr [[''d/a'', ''b'']]"
proof -
  have d: "\<not> is_regular_file fs_A ''d''" by (simp add: fs_A_def is_regular_file_def)
  have t: "IterThrows \<in> set (listing fs_throw)" by (simp add: fs_throw_def)
  have n: "IterThrows \<notin> set (listing fs_A)" by (simp add: fs_A_def)
  show ?thesis
    using traversal_error_propagates[of fs_A "''d''" "[]" "[]" hasher0]
      traversal_error_propagates[of fs_throw "''d''" "[]" "[]" hasher0] d t n
    by (simp add: fs_A_size_groups fs_A_duplicates)
qed

text \<open>
  Claim C9, as the specification states it, fails: \<^verbatim>\<open>entry.is_regular_file()\<close> asks
  \<^verbatim>\<open>status()\<close>, which follows symbolic links, so in \<open>fs_link\<close> the symbolic link to a
  regular file is a member of a size group and of the emitted duplicate group.
\<close>

theorem symlink_counterexample:
  "is_symlink (node fs_link ''link'') \<and>
   Entry ''link'' \<in> set (listing fs_link) \<and>
   group_by_size fs_link = Inr [(3, [''a'', ''link''])] \<and>
   find_duplicates hasher0 fs_link = Inr [[''a'', ''link'']]"
  by (simp add: fs_link_def eval_defs hash_123)

text \<open>
  Claim C9, amended. The size groups are exactly the classes, by size, of the listed paths
  whose status (which follows symbolic links) is a regular file, kept when they have at
  least two members, one group for each size; so every member of a size group and of an
  emitted duplicate group is a listed path with the status of a regular file, and
  directories, special files and dangling links are members of none.
\<close>

theorem regular_status_partition:
  assumes "group_by_size fs = Inr size_groups"
  shows "((s, ps) \<in> set size_groups \<longleftrightarrow>
            ps = filter (\<lambda>p. is_regular_file fs p \<and> file_size fs p = s) (entry_paths (listing fs)) \<and>
            2 \<le> length ps) \<and>
         distinct (map fst size_groups) \<and>
         (\<forall>(s, ps)\<in>set size_groups. \<forall>p\<in>set ps.
            ftype (node fs p) = Regular \<and> Entry p \<in> set (listing fs)) \<and>
         (find_duplicates H fs = Inr out \<longrightarrow>
            (\<forall>g\<in>set out. \<forall>p\<in>set g. ftype (node fs p) = Regular \<and> Entry p \<in> set (listing fs)))"
proof -
  have 1: "\<forall>(s, ps)\<in>set size_groups. \<forall>p\<in>set ps.
            ftype (node fs p) = Regular \<and> Entry p \<in> set (listing fs)"
    by (auto simp: group_by_size_mem[OF assms] is_regular_file_def entry_paths_mem)
  have 2: "\<forall>g\<in>set out. \<forall>p\<in>set g. ftype (node fs p) = Regular \<and> Entry p \<in> set (listing fs)"
    if "find_duplicates H fs = Inr out"
    using find_duplicates_members[OF that] by (auto simp: is_regular_file_def)
  show ?thesis
    using group_by_size_mem[OF assms, of s ps] group_by_size_distinct[OF assms] 1 2 by blast
qed

text \<open>
  The amended claim at \<open>fs_link\<close>.
\<close>

theorem regular_status_partition_witness:
  "group_by_size fs_link = Inr [(3, [''a'', ''link''])] \<and>
   [''a'', ''link''] =
     filter (\<lambda>p. is_regular_file fs_link p \<and> file_size fs_link p = 3) (entry_paths (listing fs_link)) \<and>
   ftype (node fs_link ''link'') = Regular \<and>
   find_duplicates hasher0 fs_link = Inr [[''a'', ''link'']]"
proof -
  have g: "group_by_size fs_link = Inr [(3, [''a'', ''link''])]"
    and f: "find_duplicates hasher0 fs_link = Inr [[''a'', ''link'']]"
    by (simp_all add: fs_link_def eval_defs hash_123)
  show ?thesis
    using regular_status_partition[OF g, of 3 "[''a'', ''link'']" hasher0 "[[''a'', ''link'']]"]
    by (simp add: g f)
qed

text \<open>
  Claim C10. For content of at most 4096 bytes the fingerprint with limit 4096 equals
  the fingerprint without limit, a string of 32 characters; for non-empty content both runs
  of the loop hash the whole content as one single chunk; so \<open>partial_hash\<close> and
  \<open>full_hash\<close> agree on every file of at most 4096 bytes, and the full step returns a
  partial-fingerprint group of at least two such files whole, as one group.
\<close>

theorem small_file_partial_equals_full:
  "(length bytes \<le> 4096 \<longrightarrow>
      hash_bytes H bytes 4096 = hash_bytes H bytes 0 \<and> length (hash_bytes H bytes 0) = 32) \<and>
   (bytes \<noteq> [] \<and> length bytes \<le> 4096 \<longrightarrow>
      read_loop H 4096 bytes 0 0 0 = (hash1_step 0 (H bytes), hash2_step 0 (H bytes)) \<and>
      read_loop H 0 bytes 0 0 0 = (hash1_step 0 (H bytes), hash2_step 0 (H bytes))) \<and>
   (file_size fs p \<le> 4096 \<longrightarrow> partial_hash H fs p = full_hash H fs p) \<and>
   ((ph, cands) \<in> set (partial_groups H fs paths) \<and> 2 \<le> length cands \<and>
      (\<forall>q\<in>set cands. file_size fs q \<le> 4096) \<longrightarrow> full_step H fs cands = [cands])"
proof -
  have eq: "length bs \<le> 4096 \<Longrightarrow> hash_bytes H bs 4096 = hash_bytes H bs 0" for bs
    using hash_bytes_limit[of 4096 H bs] by simp
  have pf: "file_size fs q \<le> 4096 \<Longrightarrow> partial_hash H fs q = full_hash H fs q" for q
    using eq[of "content (node fs q)"]
    by (simp add: partial_hash_def full_hash_def compute_hash_def PARTIAL_READ_SIZE_def file_size_def)
  have grp: "full_step H fs cands = [cands]"
    if m: "(ph, cands) \<in> set (partial_groups H fs paths)" and len: "2 \<le> length cands"
      and small: "\<forall>q\<in>set cands. file_size fs q \<le> 4096"
  proof -
    from m have ph: "ph \<noteq> []" and c: "cands = filter (\<lambda>q. partial_hash H fs q = ph) paths"
      by (auto simp: partial_groups_def hash_groups_mem)
    have all: "\<forall>q\<in>set cands. full_hash H fs q \<noteq> [] \<and> full_hash H fs q = ph"
    proof
      fix q assume q: "q \<in> set cands"
      then have "partial_hash H fs q = ph" using c by simp
      moreover have "partial_hash H fs q = full_hash H fs q" using small q pf by blast
      ultimately show "full_hash H fs q \<noteq> [] \<and> full_hash H fs q = ph" using ph by simp
    qed
    have ne: "cands \<noteq> []" using len by auto
    have "hash_groups (full_hash H fs) cands [] = [(ph, cands)]"
      unfolding hash_groups_eq using group_into_one_class[OF ne all] .
    then show ?thesis using len by (simp add: full_step_eq collect_dupes_def)
  qed
  show ?thesis
    using eq[of bytes] pf[of p] grp read_loop_single_chunk[of bytes 4096 H 0 0]
      read_loop_single_chunk[of bytes 0 H 0 0]
    by (simp add: length_hash_bytes)
qed

text \<open>
  The claim at the three bytes of \<open>b\<close> in \<open>fs_A\<close> and at the partial group of \<open>d/a\<close>
  and \<open>b\<close>.
\<close>

theorem small_file_partial_equals_full_witness:
  "hash_bytes hasher0 [1, 2, 3] 4096 = hash_bytes hasher0 [1, 2, 3] 0 \<and>
   length (hash_bytes hasher0 [1, 2, 3] 0) = 32 \<and>
   read_loop hasher0 4096 [1, 2, 3] 0 0 0 = (2670189832, 488375953) \<and>
   read_loop hasher0 0 [1, 2, 3] 0 0 0 = (2670189832, 488375953) \<and>
   file_size fs_A ''b'' \<le> 4096 \<and>
   partial_hash hasher0 fs_A ''b'' = full_hash hasher0 fs_A ''b'' \<and>
   (''000000009f27dd08000000001d1c0691'', [''d/a'', ''b''])
      \<in> set (partial_groups hasher0 fs_A [''d/a'', ''b'', ''c'', ''u'']) \<and>
   full_step hasher0 fs_A [''d/a'', ''b''] = [[''d/a'', ''b'']]"
proof -
  have m: "(''000000009f27dd08000000001d1c0691'', [''d/a'', ''b''])
      \<in> set (partial_groups hasher0 fs_A [''d/a'', ''b'', ''c'', ''u''])"
    by (simp add: fs_A_def eval_defs hash_123 hash_124)
  have s: "\<forall>q\<in>set [''d/a'', ''b'']. file_size fs_A q \<le> 4096"
    by (simp add: fs_A_def eval_defs)
  have v: "hash1_step 0 (hasher0 [1, 2, 3]) = 2670189832" "hash2_step 0 (hasher0 [1, 2, 3]) = 488375953"
    by (simp_all add: hasher0_def hash1_step_def hash2_step_def)
  show ?thesis
    using small_file_partial_equals_full[of "[1, 2, 3]" hasher0 fs_A "''b''"
        "''000000009f27dd08000000001d1c0691''" "[''d/a'', ''b'']" "[''d/a'', ''b'', ''c'', ''u'']"]
      m s v
    by (simp add: file_size_def fs_A_def plain_file_def)
qed

end
